theory Spec2Isabelle
  imports Main
begin

section \<open>JavaScript values\<close>

text \<open>
  The values the validator inspects: \<open>undefined\<close>, \<open>null\<close>, booleans, numbers, strings, plain
  objects, arrays and functions. A plain object lists its own enumerable properties in
  enumeration order (keys are distinct in a well-formed object; a lookup takes the first
  entry). Numbers are the integers and \<open>NaN\<close>: no operation of the engine does arithmetic on
  them. A function value is known by its \<open>name\<close>; what a call of it does is given by an
  environment (see \<open>hooks\<close> below). Properties inherited from a prototype
  (\<open>toString\<close>, \<open>constructor\<close>, ...) are not part of the model.
\<close>

datatype jsval =
    Undefined
  | Null
  | JBool bool
  | JNum int
  | JNaN
  | JStr string
  | JObj "(string \<times> jsval) list"
  | JArr "jsval list"
  | JFn string

type_synonym props = "(string \<times> jsval) list"

fun typeof :: "jsval \<Rightarrow> string" where
  "typeof Undefined = ''undefined''"
| "typeof Null = ''object''"
| "typeof (JBool b) = ''boolean''"
| "typeof (JNum n) = ''number''"
| "typeof JNaN = ''number''"
| "typeof (JStr s) = ''string''"
| "typeof (JObj ps) = ''object''"
| "typeof (JArr xs) = ''object''"
| "typeof (JFn f) = ''function''"

fun isArray :: "jsval \<Rightarrow> bool" where
  "isArray (JArr xs) = True"
| "isArray v = False"

text \<open>Truthiness, as \<open>!v\<close>, \<open>v && ...\<close> and \<open>if (v)\<close> read it.\<close>

fun truthy :: "jsval \<Rightarrow> bool" where
  "truthy Undefined = False"
| "truthy Null = False"
| "truthy (JBool b) = b"
| "truthy (JNum n) = (n \<noteq> 0)"
| "truthy JNaN = False"
| "truthy (JStr s) = (s \<noteq> [])"
| "truthy (JObj ps) = True"
| "truthy (JArr xs) = True"
| "truthy (JFn f) = True"

subsection \<open>Decimal strings\<close>

definition digit_char :: "nat \<Rightarrow> char" where
  "digit_char n = ''0123456789'' ! (n mod 10)"

fun show_nat :: "nat \<Rightarrow> string" where
  "show_nat n = (if n < 10 then [digit_char n] else show_nat (n div 10) @ [digit_char n])"

definition show_int :: "int \<Rightarrow> string" where
  "show_int i = (if i < 0 then CHR ''-'' # show_nat (nat (- i)) else show_nat (nat i))"

subsection \<open>Own properties\<close>

text \<open>
  \<open>own_props v\<close> pairs each key of \<open>Object.keys(v)\<close> with \<open>v[key]\<close>: the entries of an object,
  the indexed elements of an array, the indexed characters of a string, nothing for the
  other values. \<open>get_prop v k\<close> is \<open>v[k]\<close> for a value other than \<open>undefined\<close> and \<open>null\<close>
  (on which the access throws: each caller below handles these two itself).
\<close>

definition indexed :: "'a list \<Rightarrow> (string \<times> 'a) list" where
  "indexed xs = zip (map show_nat [0..<length xs]) xs"

fun own_props :: "jsval \<Rightarrow> props" where
  "own_props (JObj ps) = ps"
| "own_props (JArr xs) = indexed xs"
| "own_props (JStr s) = indexed (map (\<lambda>c. JStr [c]) s)"
| "own_props v = []"

definition lookup :: "props \<Rightarrow> string \<Rightarrow> jsval" where
  "lookup ps k = (case map_of ps k of Some v \<Rightarrow> v | None \<Rightarrow> Undefined)"

fun get_prop :: "jsval \<Rightarrow> string \<Rightarrow> jsval" where
  "get_prop (JObj ps) k = lookup ps k"
| "get_prop (JArr xs) k = (if k = ''length'' then JNum (int (length xs)) else lookup (indexed xs) k)"
| "get_prop (JStr s) k =
     (if k = ''length'' then JNum (int (length s)) else lookup (indexed (map (\<lambda>c. JStr [c]) s)) k)"
| "get_prop (JFn f) k = (if k = ''name'' then JStr f else Undefined)"
| "get_prop v k = Undefined"

subsection \<open>String conversion\<close>

text \<open>
  \<open>to_str v\<close> is \<open>String(v)\<close>, which a template literal and a property key apply to a value
  that is not a string. Inside an array, \<open>undefined\<close> and \<open>null\<close> print as the empty string.
  For a function it gives the text of a native constructor; the text of a user function
  is its source, which the model does not hold.
\<close>

fun join :: "string \<Rightarrow> string list \<Rightarrow> string" where
  "join sep [] = []"
| "join sep [x] = x"
| "join sep (x # y # ys) = x @ sep @ join sep (y # ys)"

fun to_str :: "jsval \<Rightarrow> string" where
  "to_str Undefined = ''undefined''"
| "to_str Null = ''null''"
| "to_str (JBool b) = (if b then ''true'' else ''false'')"
| "to_str (JNum n) = show_int n"
| "to_str JNaN = ''NaN''"
| "to_str (JStr s) = s"
| "to_str (JObj ps) = ''[object Object]''"
| "to_str (JArr xs) =
     join '','' (map (\<lambda>x. if x = Undefined \<or> x = Null then [] else to_str x) xs)"
| "to_str (JFn f) = ''function '' @ f @ ''() { [native code] }''"

section \<open>Errors\<close>

text \<open>
  A node is referred to from outside the tree (by a child's \<open>parent\<close>, by an error's
  \<open>field\<close>) through its name and its chain of ancestors.
\<close>

datatype plink = PLink (pname: string) (pparent: "plink option")

text \<open>
  What a \<open>throw\<close> carries. \<open>ValidationError message errors value field\<close> records the four
  arguments of \<open>new ValidationError(message, { errors, value, field })\<close>, with \<open>errors\<close>
  defaulting to the empty list, an absent \<open>value\<close> being \<open>undefined\<close> and an absent \<open>field\<close>
  being \<open>None\<close>. The \<open>message\<close> held here is the template handed to the constructor: the
  interpolation of the placeholders \<open>{ value }\<close>, \<open>{ field.name }\<close>, ... by \<open>Utils.render\<close> is
  not modelled (a template with no brace is its own rendering). \<open>Error\<close> is a plain
  \<open>new Error(message)\<close>, \<open>TypeError\<close> what the JavaScript runtime throws on a property
  access on \<open>undefined\<close> or \<open>null\<close> and on a call of a value that is not a function.
\<close>

datatype err =
    ValidationError (message: string) (errors: "err list") (evalue: jsval) (field: "plink option")
  | Error string
  | TypeError string

section \<open>Utilities\<close>

text \<open>\<open>castArray\<close>: an array as it is, any other value wrapped in a one-element array.\<close>

fun castArray :: "jsval \<Rightarrow> jsval list" where
  "castArray (JArr xs) = xs"
| "castArray v = [v]"

text \<open>\<open>s.split(/\./)\<close>: the segments between the dots, at least one.\<close>

fun split_dot :: "string \<Rightarrow> string list" where
  "split_dot [] = [[]]"
| "split_dot (c # cs) =
     (if c = CHR ''.'' then [] # split_dot cs
      else (case split_dot cs of s # ss \<Rightarrow> (c # s) # ss | [] \<Rightarrow> [[c]]))"

text \<open>
  The destructuring \<open>const [a, b] = s.split(/\./)\<close> keeps the first two segments only;
  \<open>b\<close> is \<open>undefined\<close> (\<open>None\<close>) when there is no dot.
\<close>

definition split2 :: "string \<Rightarrow> string \<times> string option" where
  "split2 s = (case split_dot s of
      a # b # rest \<Rightarrow> (a, Some b)
    | [a] \<Rightarrow> (a, None)
    | [] \<Rightarrow> ([], None))"

text \<open>
  \<open>obj2dot(obj)\<close>: the dotted paths of the own properties of \<open>obj\<close>, descending into every
  property that is a truthy object and not an array.
\<close>

fun obj2dot_props :: "string \<Rightarrow> props \<Rightarrow> string list" where
  "obj2dot_props par [] = []"
| "obj2dot_props par ((prop, v) # ps) =
     (case v of
        JObj qs \<Rightarrow> obj2dot_props (par @ prop @ ''.'') qs
      | _ \<Rightarrow> [par @ prop])
     @ obj2dot_props par ps"

definition obj2dot :: "jsval \<Rightarrow> string list" where
  "obj2dot obj = obj2dot_props [] (own_props obj)"

text \<open>
  \<open>propertiesRestricted(obj, properties)\<close> with \<open>strict\<close> left at its default \<open>false\<close>, the
  only way the engine calls it. For every key of \<open>obj\<close> that holds an object the source
  builds \<open>new RegExp(`^${property}\\.(.+)$`)\<close> with the key spliced in as it is, and then
  uses \<open>test\<close> and \<open>replace(\<dots>, '$1')\<close> on the names of \<open>properties\<close>. What a regular
  expression does with a name is a function to \<open>string option\<close>: \<open>None\<close> when \<open>test\<close> is
  false, the result of the replacement otherwise.

  For a key that holds no metacharacter of a regular expression (\<open>regex_free\<close>) the
  expression means "the key, a dot, and at least one character, none of them a line
  terminator", and the replacement is what follows the dot (\<open>child_of\<close>). For any other key
  the expression is whatever the runtime makes of the source text; this is the parameter
  \<open>rx\<close>, with \<open>rx source\<close> the outcome of \<open>new RegExp(source)\<close>: the error thrown for a source
  that is not a regular expression, or the function of the expression. (So the key \<open>a|b\<close>
  gives the alternatives \<open>^a\<close> and \<open>b\.(.+)$\<close>, which match the name \<open>a|b\<close> itself.)

  The loop over \<open>Object.keys(obj)\<close> stops at the first key that makes \<open>valid\<close> false;
  \<open>Object.keys(null)\<close>, reached through a \<open>null\<close> property that is not approved by default,
  throws.
\<close>

type_synonym matcher = "string \<Rightarrow> string option"

type_synonym regexps = "string \<Rightarrow> err + matcher"

definition line_free :: "string \<Rightarrow> bool" where
  "line_free s = (CHR 0x0A \<notin> set s \<and> CHR 0x0D \<notin> set s)"

definition metachars :: string where
  "metachars = CHR 0x5C # ''^$.*+?()[]{}|''"

definition regex_free :: "string \<Rightarrow> bool" where
  "regex_free s = list_all (\<lambda>c. c \<notin> set metachars) s"

definition child_of :: "string \<Rightarrow> matcher" where
  "child_of property v =
     (let n = length property + 1 in
      if take n v = property @ ''.'' \<and> drop n v \<noteq> [] \<and> line_free (drop n v)
      then Some (drop n v) else None)"

definition propMatch :: "regexps \<Rightarrow> string \<Rightarrow> err + matcher" where
  "propMatch rx property =
     (if regex_free property then Inr (child_of property)
      else rx (''^'' @ property @ CHR 0x5C # ''.(.+)$''))"

definition childProps :: "matcher \<Rightarrow> string list \<Rightarrow> string list" where
  "childProps m properties = List.map_filter m properties"

fun propertiesRestricted_props :: "regexps \<Rightarrow> props \<Rightarrow> string list \<Rightarrow> err + bool" where
  "propertiesRestricted_props rx [] properties = Inr True"
| "propertiesRestricted_props rx ((property, v) # ps) properties =
     (case v of
        JObj qs \<Rightarrow>
          (case propMatch rx property of
             Inl e \<Rightarrow> Inl e
           | Inr m \<Rightarrow>
               (if property \<in> set properties \<and> childProps m properties = []
                then propertiesRestricted_props rx ps properties
                else (case propertiesRestricted_props rx qs (childProps m properties) of
                        Inl e \<Rightarrow> Inl e
                      | Inr True \<Rightarrow> propertiesRestricted_props rx ps properties
                      | Inr False \<Rightarrow> Inr False)))
      | Null \<Rightarrow>
          (case propMatch rx property of
             Inl e \<Rightarrow> Inl e
           | Inr m \<Rightarrow>
               (if property \<in> set properties \<and> childProps m properties = []
                then propertiesRestricted_props rx ps properties
                else Inl (TypeError ''Cannot convert undefined or null to object'')))
      | _ \<Rightarrow>
          (if property \<notin> set properties then Inr False
           else propertiesRestricted_props rx ps properties))"

definition propertiesRestricted :: "regexps \<Rightarrow> jsval \<Rightarrow> string list \<Rightarrow> err + bool" where
  "propertiesRestricted rx obj properties =
     (if typeof obj \<noteq> ''object'' then Inr False
      else if obj = Null then Inl (TypeError ''Cannot convert undefined or null to object'')
      else propertiesRestricted_props rx (own_props obj) properties)"

text \<open>\<open>castThrowable(value, error)\<close>: a two-element array is a pair of its own.\<close>

fun castThrowable :: "jsval \<Rightarrow> jsval \<Rightarrow> jsval \<times> jsval" where
  "castThrowable (JArr [a, b]) error = (a, b)"
| "castThrowable v error = (v, error)"

text \<open>
  \<open>Utils.find(obj, path)\<close>: the value at a dotted path. Only the first two segments of
  the path are read. A property access on \<open>undefined\<close> or \<open>null\<close> throws.
\<close>

lemma split_dot_second_shorter:
  "split_dot s = a # b # rest \<Longrightarrow> length b < length s"
proof (induction s arbitrary: a b rest)
  case Nil
  then show ?case by simp
next
  case (Cons c cs)
  show ?case
  proof (cases "c = CHR ''.''")
    case True
    with Cons.prems have "split_dot cs = b # rest" by simp
    then have "length b \<le> length cs"
    proof (induction cs arbitrary: b rest)
      case Nil
      then show ?case by simp
    next
      case (Cons d ds)
      then show ?case
        by (cases "split_dot ds") (auto split: if_splits)
    qed
    then show ?thesis by simp
  next
    case False
    with Cons.prems obtain a' where "split_dot cs = a' # b # rest"
      by (cases "split_dot cs") auto
    from Cons.IH [OF this] show ?thesis by simp
  qed
qed

lemma split2_rest_shorter: "split2 s = (a, Some r) \<Longrightarrow> length r < length s"
  unfolding split2_def
  by (cases "split_dot s" rule: list.exhaust [case_names Nil Cons])
     (auto split: list.splits dest: split_dot_second_shorter)

function Utils_find :: "jsval \<Rightarrow> string \<Rightarrow> err + jsval" where
  "Utils_find obj path =
     (if obj = Undefined \<or> obj = Null then Inl (TypeError ''Cannot read property of undefined or null'')
      else case split2 path of
        (prop, Some paths) \<Rightarrow>
          (if paths \<noteq> [] \<and> typeof (get_prop obj prop) = ''object''
           then Utils_find (get_prop obj prop) paths
           else Inr (get_prop obj prop))
      | (prop, None) \<Rightarrow> Inr (get_prop obj prop))"
  by pat_completeness auto
termination
  by (relation "measure (\<lambda>(obj, path). length path)") (auto dest: split2_rest_shorter [OF sym])

section \<open>Schema nodes\<close>

text \<open>
  One node of the schema tree, with the fields of the class \<open>Schema\<close> that parsing reads:
  \<open>name\<close>, \<open>parent\<close>, \<open>type\<close> (the result of \<open>guessType\<close>: a type name, or an array of
  candidates), \<open>currentType\<close>, \<open>_settings\<close>, \<open>_defaultSettings\<close>, \<open>_cast\<close>, \<open>_validate\<close>
  and \<open>children\<close>. Settings objects are maps from keys to values; a key may be present
  with the value \<open>undefined\<close>, which \<open>Object.assign\<close> copies like any other.
  \<open>currentType\<close> and \<open>_defaultSettings\<close> change while a value is parsed, so parsing
  returns the node it has left behind together with its result.
\<close>

type_synonym settings_obj = "string \<rightharpoonup> jsval"

record node =
  name :: string
  parent :: "plink option"
  type :: jsval
  currentType :: jsval
  priv_settings :: settings_obj
  priv_defaultSettings :: settings_obj
  priv_cast :: jsval
  priv_validate :: jsval

datatype schema = Schema (node: node) (children: "schema list")

definition sget :: "settings_obj \<Rightarrow> string \<Rightarrow> jsval" where
  "sget s k = (case s k of Some v \<Rightarrow> v | None \<Rightarrow> Undefined)"

definition hasChildren :: "schema \<Rightarrow> bool" where
  "hasChildren this = (children this \<noteq> [])"

definition link_of :: "schema \<Rightarrow> plink" where
  "link_of this = PLink (name (node this)) (parent (node this))"

text \<open>
  The getter \<open>fullPath\<close>:
  \<^verbatim>\<open>(this.parent && this.parent.fullPath ? `${ this.parent.fullPath }.` : '') + this.name\<close>
\<close>

fun fullPath_link :: "plink \<Rightarrow> string" where
  "fullPath_link (PLink n None) = n"
| "fullPath_link (PLink n (Some p)) =
     (if fullPath_link p \<noteq> [] then fullPath_link p @ ''.'' else []) @ n"

definition fullPath :: "schema \<Rightarrow> string" where
  "fullPath this = fullPath_link (link_of this)"

definition ownPaths :: "schema \<Rightarrow> string list" where
  "ownPaths this = map (\<lambda>c. name (node c)) (children this)"

fun paths :: "schema \<Rightarrow> string list" where
  "paths (Schema n cs) =
     (if cs \<noteq> []
      then concat (map (\<lambda>c. map (\<lambda>p. (if name n \<noteq> [] then name n @ ''.'' else []) @ p) (paths c)) cs)
      else [name n])"

definition hasField :: "schema \<Rightarrow> string \<Rightarrow> bool" where
  "hasField this fieldName = (fieldName \<in> set (paths this))"

subsection \<open>Transformers\<close>

text \<open>
  A transformer method and a hook are called with the node as \<open>this\<close>; they read its merged
  settings and, through \<open>throwError\<close>, its identity. \<open>Transformers\<close> is a mutable exported
  object, so the engine takes the registry as a parameter \<open>R\<close>. The calls of the function
  values found in settings (\<open>cast\<close>, \<open>validate\<close>, \<open>default\<close>) and in the constructor options
  are interpreted by the parameter \<open>F\<close>, from the name of the function.
\<close>

record self =
  self_settings :: settings_obj
  self_field :: plink

type_synonym jsmethod = "self \<Rightarrow> jsval \<Rightarrow> err + jsval"

record transformer =
  t_settings :: "settings_obj option"
  t_loaders :: jsval
  t_cast :: "jsmethod option"
  t_validate :: "jsmethod option"
  t_parse :: "jsmethod option"

type_synonym registry = "string \<rightharpoonup> transformer"

type_synonym hooks = "string \<Rightarrow> jsmethod"

text \<open>
  The getter \<open>settings\<close> merges into the object \<open>_defaultSettings\<close> itself and returns it:
  \<open>settings R this\<close> is the value returned, \<open>touch R this\<close> the node after the call.
\<close>

definition settings :: "registry \<Rightarrow> schema \<Rightarrow> settings_obj" where
  "settings R this =
     (let n = node this in
      if \<not> hasChildren this then
        (case R (to_str (currentType n)) of
           Some T \<Rightarrow>
             (case t_settings T of
                Some ts \<Rightarrow> priv_defaultSettings n ++ ts ++ priv_settings n
              | None \<Rightarrow> priv_defaultSettings n ++ priv_settings n)
         | None \<Rightarrow> priv_defaultSettings n ++ priv_settings n)
      else priv_defaultSettings n ++ priv_settings n)"

definition touch :: "registry \<Rightarrow> schema \<Rightarrow> schema" where
  "touch R this = Schema ((node this)\<lparr>priv_defaultSettings := settings R this\<rparr>) (children this)"

definition self_of :: "schema \<Rightarrow> self" where
  "self_of this = \<lparr>self_settings = priv_defaultSettings (node this), self_field = link_of this\<rparr>"

text \<open>
  \<open>throwError(message, { value })\<close> throws a \<open>ValidationError\<close> whose field is the node.
  Rendering a message that is not a string fails on \<open>template.replace\<close>.
\<close>

definition throwError :: "schema \<Rightarrow> jsval \<Rightarrow> jsval \<Rightarrow> err" where
  "throwError this msg v =
     (case msg of
        JStr m \<Rightarrow> ValidationError m [] v (Some (link_of this))
      | _ \<Rightarrow> TypeError ''template.replace is not a function'')"

text \<open>
  \<open>runTransformer({ method, transformer, payload })\<close>, for a method of a registered
  transformer and for a hook held in the settings of the node (\<open>transformer: this.settings\<close>).
\<close>

definition runTransformer :: "jsmethod option \<Rightarrow> self \<Rightarrow> jsval \<Rightarrow> err + jsval" where
  "runTransformer m me payload = (case m of None \<Rightarrow> Inr payload | Some f \<Rightarrow> f me payload)"

definition call_fn :: "hooks \<Rightarrow> jsval \<Rightarrow> self \<Rightarrow> jsval \<Rightarrow> err + jsval" where
  "call_fn F h me payload =
     (case h of
        JFn f \<Rightarrow> F f me payload
      | _ \<Rightarrow> Inl (TypeError ''call is not a function''))"

definition runTransformer_settings :: "hooks \<Rightarrow> settings_obj \<Rightarrow> string \<Rightarrow> self \<Rightarrow> jsval \<Rightarrow> err + jsval" where
  "runTransformer_settings F s method me payload =
     (if \<not> truthy (sget s method) then Inr payload else call_fn F (sget s method) me payload)"

text \<open>
  \<open>guessType\<close> on a schema description that holds no \<open>Schema\<close> instance: the name of a
  function, the type of a settings object, \<open>'Object'\<close> for any other object, the guessed
  types of the elements of an array, the value itself otherwise. \<open>null.type\<close> throws.
\<close>

lemma size_map_of:
  "map_of ps k = Some v \<Longrightarrow> size v < Suc (size_list (size_prod (\<lambda>_. 0) size) ps)"
  by (induction ps) (auto split: if_splits)

function guessType :: "jsval \<Rightarrow> err + jsval"
  and guessType_list :: "jsval list \<Rightarrow> err + jsval list" where
  "guessType (JFn f) = Inr (JStr f)"
| "guessType Null = Inl (TypeError ''Cannot read property type of null'')"
| "guessType (JObj ps) =
     (if truthy (lookup ps ''type'') then guessType (lookup ps ''type'') else Inr (JStr ''Object''))"
| "guessType (JArr xs) = (case guessType_list xs of Inl e \<Rightarrow> Inl e | Inr ts \<Rightarrow> Inr (JArr ts))"
| "guessType Undefined = Inr Undefined"
| "guessType (JBool b) = Inr (JBool b)"
| "guessType (JNum n) = Inr (JNum n)"
| "guessType JNaN = Inr JNaN"
| "guessType (JStr s) = Inr (JStr s)"
| "guessType_list [] = Inr []"
| "guessType_list (x # xs) =
     (case guessType x of
        Inl e \<Rightarrow> Inl e
      | Inr t \<Rightarrow> (case guessType_list xs of Inl e \<Rightarrow> Inl e | Inr ts \<Rightarrow> Inr (t # ts)))"
  by pat_completeness auto
termination
  by (relation "measure (\<lambda>x. case x of Inl v \<Rightarrow> 2 * size v | Inr vs \<Rightarrow> Suc (2 * size_list size vs))")
     (auto simp: lookup_def dest!: size_map_of split: option.splits)

section \<open>Resolving a leaf: \<open>parseProperty\<close>\<close>

text \<open>
  A call either returns a value or throws (\<open>Inr\<close>, \<open>Inl\<close>), and leaves the node in a new
  state; the state is kept when the call throws, as the mutations of the JavaScript are.
  Loaders of transformers may refer to one another in a cycle, so the depth of the nested
  calls of \<open>parseProperty\<close> is bounded by a fuel; \<open>None\<close> is "the fuel ran out", the model of
  a recursion that does not end.
\<close>

type_synonym outcome = "((err + jsval) \<times> schema) option"

definition set_currentType :: "jsval \<Rightarrow> schema \<Rightarrow> schema" where
  "set_currentType t this = Schema ((node this)\<lparr>currentType := t\<rparr>) (children this)"

text \<open>
  The loop over the candidates of a union type. Each attempt first stores the candidate in
  \<open>currentType\<close>; whatever an attempt throws is dropped; the first attempt that returns
  ends the loop. The result is \<open>None\<close> when no attempt returned (\<open>parsed\<close> is still false).
\<close>

fun unionLoop ::
  "(schema \<Rightarrow> jsval \<Rightarrow> jsval \<Rightarrow> outcome) \<Rightarrow> schema \<Rightarrow> jsval list \<Rightarrow> jsval
     \<Rightarrow> (jsval option \<times> schema) option" where
  "unionLoop pp this [] v = Some (None, this)"
| "unionLoop pp this (t # ts) v =
     (case pp (set_currentType t this) t v of
        None \<Rightarrow> None
      | Some (Inr result, this') \<Rightarrow> Some (Some result, this')
      | Some (Inl e, this') \<Rightarrow> unionLoop pp this' ts v)"

text \<open>
  \<open>processLoaders(v, loaders)\<close>. The clone made for a loader is a shallow copy: it has its
  own \<open>type\<close>, \<open>_settings\<close> and \<open>currentType\<close>, and shares the object \<open>_defaultSettings\<close>
  with the node, so what the clone's \<open>settings\<close> getter merges is seen by the node too.
\<close>

definition loader_clone :: "schema \<Rightarrow> jsval \<Rightarrow> jsval \<Rightarrow> schema" where
  "loader_clone this loaderSchema ty =
     (let c = (node this)\<lparr>type := ty, priv_cast := Undefined, priv_validate := Undefined\<rparr> in
      Schema
        (if ty \<noteq> JStr ''Schema''
         then c\<lparr>priv_settings :=
                  priv_settings c ++ map_of (own_props loaderSchema)
                    ++ [''loaders'' \<mapsto> Undefined, ''cast'' \<mapsto> Undefined, ''validate'' \<mapsto> Undefined]\<rparr>
         else c)
        (children this))"

definition share_defaults :: "schema \<Rightarrow> schema \<Rightarrow> schema" where
  "share_defaults clone this =
     Schema ((node this)\<lparr>priv_defaultSettings := priv_defaultSettings (node clone)\<rparr>) (children this)"

fun processLoaders_loop ::
  "(schema \<Rightarrow> jsval \<Rightarrow> jsval \<Rightarrow> outcome) \<Rightarrow> schema \<Rightarrow> jsval \<Rightarrow> jsval list \<Rightarrow> outcome" where
  "processLoaders_loop pp this v [] = Some (Inr v, this)"
| "processLoaders_loop pp this v (l # ls) =
     (let loaderSchema = (if typeof l \<noteq> ''object'' then JObj [(''type'', l)] else l) in
      case guessType loaderSchema of
        Inl e \<Rightarrow> Some (Inl e, this)
      | Inr ty \<Rightarrow>
          (case pp (loader_clone this loaderSchema ty) ty v of
             None \<Rightarrow> None
           | Some (Inl e, clone) \<Rightarrow> Some (Inl e, share_defaults clone this)
           | Some (Inr v', clone) \<Rightarrow> processLoaders_loop pp (share_defaults clone this) v' ls))"

definition processLoaders ::
  "(schema \<Rightarrow> jsval \<Rightarrow> jsval \<Rightarrow> outcome) \<Rightarrow> schema \<Rightarrow> jsval \<Rightarrow> jsval \<Rightarrow> outcome" where
  "processLoaders pp this v loaders = processLoaders_loop pp this v (castArray loaders)"

text \<open>
  The stages of \<open>parseProperty\<close> once the transformer is known, in the order of the source.
  \<open>default_stage\<close>: the substitution of the default for \<open>undefined\<close>.
  \<open>required_stage\<close>: what is thrown for an \<open>undefined\<close> value of a required node.
  \<open>run_stages\<close>: the casts, the validations and the final parse.
  They are given a node on which the getter \<open>settings\<close> has just run, and read the merged
  settings in \<open>_defaultSettings\<close>.
\<close>

definition default_stage :: "hooks \<Rightarrow> schema \<Rightarrow> jsval \<Rightarrow> err + jsval" where
  "default_stage F this v =
     (let d = sget (priv_defaultSettings (node this)) ''default'' in
      if d \<noteq> Undefined \<and> v = Undefined
      then (if typeof d = ''function'' then call_fn F d (self_of this) v else Inr d)
      else Inr v)"

definition required_stage :: "schema \<Rightarrow> jsval \<Rightarrow> err option" where
  "required_stage this v =
     (case castThrowable (sget (priv_defaultSettings (node this)) ''required'')
             (JStr (''Property '' @ fullPath this @ '' is required'')) of
        (required, error) \<Rightarrow> if truthy required then Some (throwError this error v) else None)"

definition bind_err :: "err + 'a \<Rightarrow> ('a \<Rightarrow> err + 'b) \<Rightarrow> err + 'b" where
  "bind_err r f = (case r of Inl e \<Rightarrow> Inl e | Inr x \<Rightarrow> f x)"

definition run_stages :: "hooks \<Rightarrow> transformer \<Rightarrow> schema \<Rightarrow> jsval \<Rightarrow> err + jsval" where
  "run_stages F T this v =
     (let s = priv_defaultSettings (node this); me = self_of this in
      bind_err (runTransformer_settings F s ''cast'' me v) (\<lambda>v1.
      bind_err (if truthy (sget s ''autoCast'') then runTransformer (t_cast T) me v1 else Inr v1) (\<lambda>v2.
      bind_err (runTransformer (t_validate T) me v2) (\<lambda>_.
      bind_err (runTransformer_settings F s ''validate'' me v2) (\<lambda>_.
      runTransformer (t_parse T) me v2)))))"

text \<open>
  The two loader passes of \<open>parseProperty\<close>: the loaders named in the settings of the
  node, then the loaders of the transformer.
\<close>

definition run_loaders ::
  "(schema \<Rightarrow> jsval \<Rightarrow> jsval \<Rightarrow> outcome) \<Rightarrow> transformer \<Rightarrow> schema \<Rightarrow> jsval \<Rightarrow> outcome" where
  "run_loaders pp T this v =
     (let s = priv_defaultSettings (node this) in
      case (if truthy (sget s ''loaders'') then processLoaders pp this v (sget s ''loaders'')
            else Some (Inr v, this)) of
        None \<Rightarrow> None
      | Some (Inl e, this2) \<Rightarrow> Some (Inl e, this2)
      | Some (Inr v2, this2) \<Rightarrow>
          (if truthy (t_loaders T) then processLoaders pp this2 v2 (t_loaders T)
           else Some (Inr v2, this2)))"

definition resolve ::
  "(schema \<Rightarrow> jsval \<Rightarrow> jsval \<Rightarrow> outcome) \<Rightarrow> registry \<Rightarrow> hooks \<Rightarrow> transformer \<Rightarrow> schema \<Rightarrow> jsval
     \<Rightarrow> outcome" where
  "resolve pp R F T this v =
     (let this1 = touch R this; s = priv_defaultSettings (node this1) in
      case default_stage F this1 v of
        Inl e \<Rightarrow> Some (Inl e, this1)
      | Inr v1 \<Rightarrow>
          if v1 = Undefined \<and> \<not> truthy (sget s ''required'') then Some (Inr Undefined, this1)
          else
            (case (if v1 = Undefined then required_stage this1 v1 else None) of
               Some e \<Rightarrow> Some (Inl e, this1)
             | None \<Rightarrow>
                 (case run_loaders pp T this1 v1 of
                    None \<Rightarrow> None
                  | Some (Inl e, this3) \<Rightarrow> Some (Inl e, this3)
                  | Some (Inr v3, this3) \<Rightarrow>
                      Some (run_stages F T (touch R this3) v3, touch R this3))))"

text \<open>
  \<open>parseProperty(type, v)\<close>, with \<open>pp\<close> standing for its own nested calls: the \<open>null\<close>
  short-circuit (the getter runs only when \<open>v\<close> is \<open>null\<close>), the union loop, the lookup of the
  transformer, and the stages above.
\<close>

definition parseProperty_body ::
  "(schema \<Rightarrow> jsval \<Rightarrow> jsval \<Rightarrow> outcome) \<Rightarrow> registry \<Rightarrow> hooks \<Rightarrow> schema \<Rightarrow> jsval \<Rightarrow> jsval
     \<Rightarrow> outcome" where
  "parseProperty_body pp R F this ty v =
     (if v = Null \<and> truthy (sget (settings R this) ''allowNull'') then Some (Inr v, touch R this)
      else
        let this0 = (if v = Null then touch R this else this) in
        case ty of
          JArr ts \<Rightarrow>
            (case unionLoop pp this0 ts v of
               None \<Rightarrow> None
             | Some (Some result, this1) \<Rightarrow> Some (Inr result, this1)
             | Some (None, this1) \<Rightarrow>
                 Some (Inl (throwError this1 (JStr ''Could not resolve given value type'') Undefined),
                       this1))
        | _ \<Rightarrow>
            (case R (to_str ty) of
               None \<Rightarrow>
                 Some (Inl (throwError this0 (JStr (''Don't know how to resolve '' @ to_str ty)) Undefined),
                       this0)
             | Some T \<Rightarrow> resolve pp R F T this0 v))"

primrec parseProperty ::
  "nat \<Rightarrow> registry \<Rightarrow> hooks \<Rightarrow> schema \<Rightarrow> jsval \<Rightarrow> jsval \<Rightarrow> outcome" where
  "parseProperty 0 R F = (\<lambda>this ty v. None)"
| "parseProperty (Suc n) R F = parseProperty_body (parseProperty n R F) R F"

section \<open>Resolving a nested node\<close>

text \<open>
  \<open>schemaAtPath(pathName)\<close>: the first child named as the first segment of the path, and
  from there the node at the second segment when there is one. With a second segment and
  no such child, \<open>schema.schemaAtPath\<close> is read on \<open>undefined\<close>, which throws.
\<close>

function schemaAtPath :: "schema \<Rightarrow> string \<Rightarrow> err + schema option" where
  "schemaAtPath this pathName =
     (case split2 pathName of
        (path, rest) \<Rightarrow>
          (let found = List.find (\<lambda>possibleSchema. name (node possibleSchema) = path) (children this) in
           case rest of
             None \<Rightarrow> Inr found
           | Some r \<Rightarrow>
               if r \<noteq> [] then
                 (case found of
                    None \<Rightarrow> Inl (TypeError ''Cannot read property schemaAtPath of undefined'')
                  | Some sch \<Rightarrow> schemaAtPath sch r)
               else Inr found))"
  by pat_completeness auto
termination
  by (relation "measure (\<lambda>(this, pathName). length pathName)")
     (auto dest: split2_rest_shorter [OF sym])

text \<open>
  The node that \<open>schemaAtPath\<close> returns is an object of the tree, and parsing with it
  changes it in place. \<open>putAtPath this pathName new\<close> is the tree with \<open>new\<close> at the place
  that \<open>schemaAtPath this pathName\<close> reads.
\<close>

fun map_first :: "('a \<Rightarrow> bool) \<Rightarrow> ('a \<Rightarrow> 'a) \<Rightarrow> 'a list \<Rightarrow> 'a list" where
  "map_first P f [] = []"
| "map_first P f (x # xs) = (if P x then f x # xs else x # map_first P f xs)"

function putAtPath :: "schema \<Rightarrow> string \<Rightarrow> schema \<Rightarrow> schema" where
  "putAtPath this pathName new =
     (case split2 pathName of
        (path, rest) \<Rightarrow>
          Schema (node this)
            (map_first (\<lambda>possibleSchema. name (node possibleSchema) = path)
               (\<lambda>sch. case rest of
                         None \<Rightarrow> new
                       | Some r \<Rightarrow> if r \<noteq> [] then putAtPath sch r new else new)
               (children this)))"
  by pat_completeness auto
termination
  by (relation "measure (\<lambda>(this, pathName, new). length pathName)")
     (auto dest: split2_rest_shorter [OF sym])

text \<open>
  \<open>structureValidation(obj)\<close>. The error is built with \<open>new ValidationError\<close> directly, with
  a value and no field; its sub-errors are plain \<open>Error\<close>s.
\<close>

definition structureValidation :: "regexps \<Rightarrow> schema \<Rightarrow> jsval \<Rightarrow> err + unit" where
  "structureValidation rx this obj =
     (if \<not> truthy obj \<or> \<not> hasChildren this then Inr ()
      else
        (case propertiesRestricted rx obj (ownPaths this) of
           Inl e \<Rightarrow> Inl e
         | Inr True \<Rightarrow> Inr ()
         | Inr False \<Rightarrow>
             Inl (ValidationError ''Invalid object schema''
                    (map (\<lambda>field. Error (''Unknown property '' @ field))
                       (filter (\<lambda>field. \<not> hasField this field) (obj2dot obj)))
                    obj None)))"

text \<open>
  What the error trapper \<open>sandbox\<close> of \<open>runChildren\<close> adds to \<open>errors\<close> for a caught error:
  the sub-errors of a \<open>ValidationError\<close> that has some, the error itself otherwise.
\<close>

fun sandbox :: "err \<Rightarrow> err list" where
  "sandbox (ValidationError m es v f) = (if es \<noteq> [] then es else [ValidationError m es v f])"
| "sandbox e = [e]"

text \<open>\<open>pathName.replace(/\..*$/)\<close>: called with no replacement, it writes \<open>undefined\<close>.\<close>

fun replace_dot_tail :: "string \<Rightarrow> string" where
  "replace_dot_tail [] = []"
| "replace_dot_tail (c # cs) =
     (if c = CHR ''.'' \<and> line_free cs then ''undefined'' else c # replace_dot_tail cs)"

text \<open>\<open>Object.assign(resultingObject, { [key]: val })\<close>\<close>

fun set_prop :: "props \<Rightarrow> string \<Rightarrow> jsval \<Rightarrow> props" where
  "set_prop [] k v = [(k, v)]"
| "set_prop ((k', v') # ps) k v = (if k' = k then (k, v) # ps else (k', v') # set_prop ps k v)"

text \<open>
  The loop of \<open>runChildren\<close> over \<open>ownPaths\<close>, with \<open>pc\<close> standing for \<open>parse\<close> on a child.
  The lookup of the child is outside the error trapper, and so is the read of its name,
  which happens only for an input that is an object other than \<open>null\<close>: there a child that
  is not found ends \<open>runChildren\<close> with a \<open>TypeError\<close>. For any other input the child
  that is not found is first used inside the error trapper (\<open>schema[method]\<close>), which keeps
  the \<open>TypeError\<close> and lets the loop go on.
\<close>

fun runChildren_loop ::
  "(schema \<Rightarrow> jsval \<Rightarrow> outcome) \<Rightarrow> schema \<Rightarrow> jsval \<Rightarrow> string list \<Rightarrow> props \<Rightarrow> err list
     \<Rightarrow> ((err + props \<times> err list) \<times> schema) option" where
  "runChildren_loop pc this obj [] resultingObject errs = Some (Inr (resultingObject, errs), this)"
| "runChildren_loop pc this obj (pathName # rest) resultingObject errs =
     (case schemaAtPath this (replace_dot_tail pathName) of
        Inl e \<Rightarrow> Some (Inl e, this)
      | Inr None \<Rightarrow>
          (if typeof obj = ''object'' \<and> obj \<noteq> Null
           then Some (Inl (TypeError ''Cannot read property name of undefined''), this)
           else runChildren_loop pc this obj rest resultingObject
                  (errs @ [TypeError ''Cannot read property parse of undefined'']))
      | Inr (Some sch) \<Rightarrow>
          (let input = (if typeof obj = ''object'' \<and> obj \<noteq> Null
                        then get_prop obj (name (node sch)) else Undefined) in
           case pc sch input of
             None \<Rightarrow> None
           | Some (Inl e, sch') \<Rightarrow>
               runChildren_loop pc (putAtPath this (replace_dot_tail pathName) sch') obj rest
                 resultingObject (errs @ sandbox e)
           | Some (Inr val, sch') \<Rightarrow>
               runChildren_loop pc (putAtPath this (replace_dot_tail pathName) sch') obj rest
                 (if val \<noteq> Undefined then set_prop resultingObject (name (node sch)) val
                  else resultingObject)
                 errs))"

definition runChildren ::
  "regexps \<Rightarrow> (schema \<Rightarrow> jsval \<Rightarrow> outcome) \<Rightarrow> registry \<Rightarrow> schema \<Rightarrow> jsval \<Rightarrow> outcome" where
  "runChildren rx pc R this obj =
     (let this1 = touch R this in
      if \<not> truthy (sget (priv_defaultSettings (node this1)) ''required'') \<and> obj = Undefined
      then Some (Inr Undefined, this1)
      else
        (case runChildren_loop pc this1 obj (ownPaths this1) []
                (case structureValidation rx this1 obj of Inl e \<Rightarrow> sandbox e | Inr _ \<Rightarrow> []) of
           None \<Rightarrow> None
         | Some (Inl e, this2) \<Rightarrow> Some (Inl e, this2)
         | Some (Inr (resultingObject, errs), this2) \<Rightarrow>
             if errs \<noteq> []
             then Some (Inl (ValidationError ''Data is not valid'' errs Undefined None), this2)
             else Some (Inr (JObj resultingObject), this2)))"

text \<open>
  The schema-level hooks of \<open>parse\<close>, run on a node without parent: \<open>this.cast\<close> is \<open>_cast\<close>, or
  the identity when \<open>_cast\<close> is falsy, and likewise \<open>this.validate\<close>, whose result is dropped.
\<close>

definition run_hook :: "hooks \<Rightarrow> jsval \<Rightarrow> self \<Rightarrow> jsval \<Rightarrow> err + jsval" where
  "run_hook F h me v = (if \<not> truthy h then Inr v else call_fn F h me v)"

definition root_hooks :: "registry \<Rightarrow> hooks \<Rightarrow> schema \<Rightarrow> jsval \<Rightarrow> err + jsval" where
  "root_hooks R F this v =
     (let me = \<lparr>self_settings = settings R this, self_field = link_of this\<rparr> in
      bind_err (run_hook F (priv_cast (node this)) me v) (\<lambda>v1.
      bind_err (run_hook F (priv_validate (node this)) me v1) (\<lambda>_. Inr v1)))"

text \<open>\<open>parse(v)\<close>. The fuel bounds the depth of the tree walk and of the loaders.\<close>

primrec parse :: "regexps \<Rightarrow> nat \<Rightarrow> registry \<Rightarrow> hooks \<Rightarrow> schema \<Rightarrow> jsval \<Rightarrow> outcome" where
  "parse rx 0 R F = (\<lambda>this v. None)"
| "parse rx (Suc n) R F = (\<lambda>this v.
     case (if hasChildren this then runChildren rx (parse rx n R F) R this v
           else parseProperty (Suc n) R F this (type (node this)) v) of
       None \<Rightarrow> None
     | Some (Inl e, this') \<Rightarrow> Some (Inl e, this')
     | Some (Inr v', this') \<Rightarrow>
         if parent (node this') = None then Some (root_hooks R F this' v', this')
         else Some (Inr v', this'))"

section \<open>Construction\<close>

text \<open>
  \<open>new Schema(schema, { name, defaultValues, parent, validate, cast, settings })\<close> for a
  description that holds no \<open>Schema\<close> instance. \<open>dv\<close> is the object \<open>_defaultValues\<close> at the
  top of the parent chain, which \<open>getDefault\<close> reads. The result is \<open>None\<close> for the two
  descriptions left out of the model: a property whose guessed type is \<open>'Schema'\<close> (the
  source embeds a clone of it) and the string \<open>'Object'\<close> used as a nested description.
\<close>

definition isNested :: "jsval \<Rightarrow> bool" where
  "isNested obj = (guessType obj = Inr (JStr ''Object'') \<and> \<not> truthy (get_prop obj ''type''))"

fun getDefault :: "jsval \<Rightarrow> plink \<Rightarrow> string option \<Rightarrow> err + jsval" where
  "getDefault dv (PLink n None) child =
     (case child of
        Some c \<Rightarrow> if c \<noteq> [] then Utils_find dv c else Inr Undefined
      | None \<Rightarrow> Inr Undefined)"
| "getDefault dv (PLink n (Some p)) child =
     getDefault dv p
       (Some (case child of Some c \<Rightarrow> if c \<noteq> [] then n @ ''.'' @ c else n | None \<Rightarrow> n))"

definition builtin_defaultSettings :: settings_obj where
  "builtin_defaultSettings =
     [''required'' \<mapsto> JBool True, ''allowNull'' \<mapsto> JBool False, ''default'' \<mapsto> Undefined]"

text \<open>
  The \<open>_settings\<close> of a leaf:
  \<^verbatim>\<open>typeof schema === 'object'
     ? Object.assign({}, this._settings, { required: schema.default === undefined }, schema)
     : this._settings\<close>
  without the key \<open>type\<close>.
\<close>

definition leaf_settings :: "settings_obj \<Rightarrow> jsval \<Rightarrow> settings_obj" where
  "leaf_settings s schema =
     (if typeof schema = ''object''
      then s ++ [''required'' \<mapsto> JBool (get_prop schema ''default'' = Undefined)]
             ++ map_of (own_props schema)
      else s)(''type'' := None)"

definition new_node ::
  "string \<Rightarrow> plink option \<Rightarrow> jsval \<Rightarrow> jsval \<Rightarrow> settings_obj \<Rightarrow> jsval \<Rightarrow> node" where
  "new_node nm par validate cast s ty =
     \<lparr>name = nm, parent = par, type = ty,
      currentType = (case castArray ty of [] \<Rightarrow> Undefined | t # ts \<Rightarrow> t),
      priv_settings = s, priv_defaultSettings = builtin_defaultSettings,
      priv_cast = cast, priv_validate = validate\<rparr>"

text \<open>
  The end of the constructor: the check that \<open>default\<close> and \<open>required\<close> are not both set in
  the merged settings, then \<open>this._defaultSettings.default = this.getDefault()\<close>.
\<close>

definition conflict :: "registry \<Rightarrow> schema \<Rightarrow> bool" where
  "conflict R this =
     (sget (settings R this) ''default'' \<noteq> Undefined \<and> truthy (sget (settings R this) ''required''))"

definition finish_construct :: "registry \<Rightarrow> jsval \<Rightarrow> schema \<Rightarrow> err + schema" where
  "finish_construct R dv this =
     (if conflict R this
      then Inl (Error (''Remove either the 'required' or the 'default' option for property ''
                        @ fullPath this @ ''.''))
      else
        (case getDefault dv (link_of this) None of
           Inl e \<Rightarrow> Inl e
         | Inr d \<Rightarrow>
             Inr (Schema ((node this)\<lparr>priv_defaultSettings := (settings R this)(''default'' \<mapsto> d)\<rparr>)
                    (children this))))"

function construct ::
  "registry \<Rightarrow> jsval \<Rightarrow> string \<Rightarrow> plink option \<Rightarrow> jsval \<Rightarrow> jsval \<Rightarrow> settings_obj \<Rightarrow> jsval
     \<Rightarrow> (err + schema) option"
  and parseSchema :: "registry \<Rightarrow> jsval \<Rightarrow> plink \<Rightarrow> props \<Rightarrow> (err + schema list) option" where
  "construct R dv nm par validate cast s schema =
     (case guessType schema of
        Inl e \<Rightarrow> Some (Inl e)
      | Inr ty \<Rightarrow>
          if isNested schema then
            (case schema of
               JObj ps \<Rightarrow>
                 (case parseSchema R dv (PLink nm par) ps of
                    None \<Rightarrow> None
                  | Some (Inl e) \<Rightarrow> Some (Inl e)
                  | Some (Inr cs) \<Rightarrow>
                      Some (finish_construct R dv (Schema (new_node nm par validate cast s ty) cs)))
             | JFn f \<Rightarrow> Some (finish_construct R dv (Schema (new_node nm par validate cast s ty) []))
             | _ \<Rightarrow> None)
          else
            Some (finish_construct R dv
                    (Schema (new_node nm par validate cast (leaf_settings s schema) ty) [])))"
| "parseSchema R dv p [] = Some (Inr [])"
| "parseSchema R dv p ((prop, v) # ps) =
     (case guessType v of
        Inl e \<Rightarrow> Some (Inl e)
      | Inr t \<Rightarrow>
          if t = JStr ''Schema'' then None
          else
            (case construct R dv prop (Some p) Undefined Undefined Map.empty v of
               None \<Rightarrow> None
             | Some (Inl e) \<Rightarrow> Some (Inl e)
             | Some (Inr c) \<Rightarrow>
                 (case parseSchema R dv p ps of
                    None \<Rightarrow> None
                  | Some (Inl e) \<Rightarrow> Some (Inl e)
                  | Some (Inr cs) \<Rightarrow> Some (Inr (c # cs)))))"
  by pat_completeness auto
termination
  by (relation "measure (\<lambda>x. case x of
         Inl (R, dv, nm, par, validate, cast, s, schema) \<Rightarrow> 2 * size schema
       | Inr (R, dv, p, ps) \<Rightarrow> Suc (2 * size_list (size_prod (\<lambda>_. 0) size) ps))")
     auto

text \<open>\<open>new Schema(schema)\<close> and \<open>new Schema(schema, { defaultValues })\<close>.\<close>

definition new_Schema :: "registry \<Rightarrow> jsval \<Rightarrow> (err + schema) option" where
  "new_Schema R schema = construct R (JObj []) [] None Undefined Undefined Map.empty schema"

section \<open>Built-in transformers\<close>

text \<open>
  The transformers whose values the model holds: \<open>Boolean\<close>, \<open>Function\<close>, \<open>Number\<close>, \<open>Object\<close>
  and \<open>String\<close>. Two services of the JavaScript runtime are parameters: \<open>rt_Number\<close>, the
  conversion \<open>Number(value)\<close> (which also decides a comparison \<open>n < x\<close> of a number with any
  value), and \<open>rt_invoke f this args\<close>, the call of the function value named \<open>f\<close> as a method
  of \<open>this\<close>.
\<close>

record runtime =
  rt_Number :: "jsval \<Rightarrow> jsval"
  rt_invoke :: "string \<Rightarrow> jsval \<Rightarrow> jsval list \<Rightarrow> err + jsval"

definition method_throwError :: "self \<Rightarrow> jsval \<Rightarrow> jsval \<Rightarrow> err" where
  "method_throwError me msg v =
     (case msg of
        JStr m \<Rightarrow> ValidationError m [] v (Some (self_field me))
      | _ \<Rightarrow> TypeError ''template.replace is not a function'')"

definition Boolean_t :: transformer where
  "Boolean_t =
     \<lparr>t_settings = Some [''typeError'' \<mapsto> JStr ''Invalid boolean'', ''autoCast'' \<mapsto> JBool False],
      t_loaders = Undefined,
      t_cast = Some (\<lambda>me v. Inr (JBool (truthy v))),
      t_validate = Some (\<lambda>me v.
        if typeof v \<noteq> ''boolean'' then Inl (method_throwError me (JStr ''Invalid boolean'') v)
        else Inr Undefined),
      t_parse = None\<rparr>"

definition Function_t :: transformer where
  "Function_t =
     \<lparr>t_settings = Some [''typeError'' \<mapsto> JStr ''Invalid function''],
      t_loaders = Undefined,
      t_cast = None,
      t_validate = Some (\<lambda>me v.
        if typeof v \<noteq> ''function'' then Inl (method_throwError me (JStr ''Invalid function'') v)
        else Inr Undefined),
      t_parse = None\<rparr>"

definition Number_t :: "runtime \<Rightarrow> transformer" where
  "Number_t rt =
     \<lparr>t_settings = Some [''typeError'' \<mapsto> JStr ''Invalid number'', ''autoCast'' \<mapsto> JBool False],
      t_loaders = Undefined,
      t_cast = Some (\<lambda>me v. Inr (rt_Number rt v)),
      t_validate = Some (\<lambda>me v.
        if typeof v \<noteq> ''number'' \<or> v = JNaN
        then Inl (method_throwError me (JStr ''Invalid number'') v)
        else Inr Undefined),
      t_parse = None\<rparr>"

definition Object_t :: transformer where
  "Object_t =
     \<lparr>t_settings = Some [''typeError'' \<mapsto> JStr ''Invalid object''],
      t_loaders = Undefined,
      t_cast = None,
      t_validate = Some (\<lambda>me v.
        if typeof v \<noteq> ''object'' then Inl (method_throwError me (JStr ''Invalid object'') v)
        else Inr Undefined),
      t_parse = None\<rparr>"

text \<open>\<open>n < x\<close> for a number \<open>n\<close>: \<open>x\<close> is converted to a number, and \<open>NaN\<close> compares false.\<close>

definition num_less :: "runtime \<Rightarrow> int \<Rightarrow> jsval \<Rightarrow> bool" where
  "num_less rt n x = (case rt_Number rt x of JNum k \<Rightarrow> n < k | _ \<Rightarrow> False)"

definition num_greater :: "runtime \<Rightarrow> int \<Rightarrow> jsval \<Rightarrow> bool" where
  "num_greater rt n x = (case rt_Number rt x of JNum k \<Rightarrow> n > k | _ \<Rightarrow> False)"

definition String_cast :: "runtime \<Rightarrow> jsmethod" where
  "String_cast rt me v =
     (case v of
        JObj ps \<Rightarrow>
          (case lookup ps ''toString'' of
             JFn f \<Rightarrow>
               bind_err (rt_invoke rt f v []) (\<lambda>r.
                 if r \<noteq> JStr ''[object Object]'' then rt_invoke rt f v [] else Inr v)
           | _ \<Rightarrow> Inr v)
      | _ \<Rightarrow> Inr v)"

definition String_regex_test :: "runtime \<Rightarrow> jsval \<Rightarrow> jsval \<Rightarrow> err + bool" where
  "String_regex_test rt regex v =
     (if regex = Undefined \<or> regex = Null
      then Inl (TypeError ''Cannot read property test of undefined or null'')
      else case get_prop regex ''test'' of
        JFn f \<Rightarrow> bind_err (rt_invoke rt f regex [v]) (\<lambda>r. Inr (truthy r))
      | _ \<Rightarrow> Inl (TypeError ''regex.test is not a function''))"

definition String_validate :: "runtime \<Rightarrow> jsmethod" where
  "String_validate rt me v =
     (case v of
        JStr str \<Rightarrow>
          (let s = self_settings me; enum = sget s ''enum'' in
           if isArray enum \<and> castArray enum \<noteq> [] \<and> v \<notin> set (castArray enum)
           then Inl (method_throwError me (JStr ''Unknown enum option { value }'') v)
           else
             (case (if truthy (sget s ''minlength'')
                    then (case castThrowable (sget s ''minlength'') (JStr ''Invalid minlength'') of
                            (minlength, error) \<Rightarrow>
                              if num_less rt (int (length str)) minlength
                              then Some (method_throwError me error v) else None)
                    else None) of
                Some e \<Rightarrow> Inl e
              | None \<Rightarrow>
                  (case (if truthy (sget s ''maxlength'')
                         then (case castThrowable (sget s ''maxlength'') (JStr ''Invalid maxlength'') of
                                 (maxlength, error) \<Rightarrow>
                                   if num_greater rt (int (length str)) maxlength
                                   then Some (method_throwError me error v) else None)
                         else None) of
                     Some e \<Rightarrow> Inl e
                   | None \<Rightarrow>
                       (if truthy (sget s ''regex'')
                        then (case castThrowable (sget s ''regex'') (JStr ''Invalid regex'') of
                                (regex, error) \<Rightarrow>
                                  bind_err (String_regex_test rt regex v) (\<lambda>ok.
                                    if \<not> ok then Inl (method_throwError me error v)
                                    else Inr Undefined))
                        else Inr Undefined))))
      | _ \<Rightarrow> Inl (method_throwError me (JStr ''Invalid string'') v))"

definition String_t :: "runtime \<Rightarrow> transformer" where
  "String_t rt =
     \<lparr>t_settings = Some [''typeError'' \<mapsto> JStr ''Invalid string'',
                          ''enumError'' \<mapsto> JStr ''Unknown enum option { value }'',
                          ''enum'' \<mapsto> JArr [], ''autoCast'' \<mapsto> JBool False],
      t_loaders = Undefined,
      t_cast = Some (String_cast rt),
      t_validate = Some (String_validate rt),
      t_parse = None\<rparr>"

definition Transformers :: "runtime \<Rightarrow> registry" where
  "Transformers rt =
     [''Boolean'' \<mapsto> Boolean_t, ''Function'' \<mapsto> Function_t, ''Number'' \<mapsto> Number_t rt,
      ''Object'' \<mapsto> Object_t, ''String'' \<mapsto> String_t rt]"

section \<open>Example schemas\<close>

text \<open>
  A runtime for the examples: \<open>Number(value)\<close> on a number, a boolean, \<open>null\<close>,
  \<open>undefined\<close> and a string that is not the text of a number (\<open>NaN\<close>), and no callable
  function value. The examples never convert the text of a number, an array or an object
  to a number.
\<close>

definition ex_rt :: runtime where
  "ex_rt =
     \<lparr>rt_Number = (\<lambda>v. case v of
                         JNum n \<Rightarrow> JNum n
                       | JBool b \<Rightarrow> JNum (if b then 1 else 0)
                       | Null \<Rightarrow> JNum 0
                       | _ \<Rightarrow> JNaN),
      rt_invoke = (\<lambda>f this args. Inl (TypeError ''not a function''))\<rparr>"

text \<open>
  \<open>built description\<close> is the tree that \<open>new Schema(description)\<close> builds with the
  built-in transformers (an empty leaf stands for a construction that throws).
\<close>

definition built :: "jsval \<Rightarrow> schema" where
  "built description =
     (case new_Schema (Transformers ex_rt) description of
        Some (Inr this) \<Rightarrow> this
      | _ \<Rightarrow> Schema (new_node [] None Undefined Undefined Map.empty Undefined) [])"

text \<open>\<^verbatim>\<open>{ a: { b: { c: String } } }\<close>\<close>

definition nested3 :: jsval where
  "nested3 = JObj [(''a'', JObj [(''b'', JObj [(''c'', JFn ''String'')])])]"



text \<open>\<^verbatim>\<open>{ type: Number, cast: inc, validate: positive }\<close>\<close>

definition cast_then_validate :: jsval where
  "cast_then_validate =
     JObj [(''type'', JFn ''Number''), (''cast'', JFn ''inc''), (''validate'', JFn ''positive'')]"

text \<open>The leaf \<^verbatim>\<open>[String, Number]\<close>\<close>

definition string_or_number :: schema where
  "string_or_number = built (JArr [JFn ''String'', JFn ''Number''])"

text \<open>
  \<^verbatim>\<open>new Schema({ a: String }, { settings: { required: false } })\<close>, the description
  \<^verbatim>\<open>{ 'a.b': String }\<close>, and an input for the round-trip schema with a wrong city, an
  unknown property and no name.
\<close>

definition optional_nested :: schema where
  "optional_nested =
     (case construct (Transformers ex_rt) (JObj []) [] None Undefined Undefined
             [''required'' \<mapsto> JBool False] (JObj [(''a'', JFn ''String'')]) of
        Some (Inr this) \<Rightarrow> this
      | _ \<Rightarrow> Schema (new_node [] None Undefined Undefined Map.empty Undefined) [])"

definition dotted :: jsval where
  "dotted = JObj [(''a.b'', JFn ''String'')]"

definition wrong_city :: jsval where
  "wrong_city = JObj [(''address'', JObj [(''city'', JNum 1), (''foo'', JNum 1)])]"

text \<open>
  \<^verbatim>\<open>{ type: Number, cast: inc }\<close>, a leaf whose own \<open>cast\<close> adds one, and
  \<^verbatim>\<open>{ type: [Number, Boolean], autoCast: true }\<close>, a union whose candidates run the casts of
  the built-in transformers.
\<close>

definition increment :: jsval where
  "increment = JObj [(''type'', JFn ''Number''), (''cast'', JFn ''inc'')]"

definition number_or_boolean :: jsval where
  "number_or_boolean =
     JObj [(''type'', JArr [JFn ''Number'', JFn ''Boolean'']), (''autoCast'', JBool True)]"

section \<open>Notions used by the properties\<close>

text \<open>
  Parsing changes two fields of a node only, \<open>currentType\<close> and \<open>_defaultSettings\<close>:
  \<open>same_static this this'\<close> says that the two nodes agree on every other field and on
  their children.
\<close>

definition same_static :: "schema \<Rightarrow> schema \<Rightarrow> bool" where
  "same_static this this' =
     (children this' = children this
      \<and> name (node this') = name (node this)
      \<and> parent (node this') = parent (node this)
      \<and> type (node this') = type (node this)
      \<and> priv_settings (node this') = priv_settings (node this)
      \<and> priv_cast (node this') = priv_cast (node this)
      \<and> priv_validate (node this') = priv_validate (node this))"

definition preserves :: "(schema \<Rightarrow> jsval \<Rightarrow> jsval \<Rightarrow> outcome) \<Rightarrow> bool" where
  "preserves pp = (\<forall>this ty v r this'. pp this ty v = Some (r, this') \<longrightarrow> same_static this this')"

text \<open>
  The calls of the function values of the examples: \<open>inc\<close> adds one to a number,
  \<open>positive\<close> throws unless it is given a positive number, any other function returns
  its argument.
\<close>

definition ex_hooks :: hooks where
  "ex_hooks f me v =
     (if f = ''inc'' then (case v of JNum n \<Rightarrow> Inr (JNum (n + 1)) | _ \<Rightarrow> Inr v)
      else if f = ''positive''
      then (case v of
              JNum n \<Rightarrow> if 0 < n then Inr Undefined else Inl (Error ''must be positive'')
            | _ \<Rightarrow> Inl (Error ''must be positive''))
      else Inr v)"

text \<open>
  The schema and the input of the round-trip example:
  \<^verbatim>\<open>{ name: String, age: { type: Number, required: false }, address: { city: String, zip: Number } }\<close>
  and \<^verbatim>\<open>{ name: "Ann", address: { city: "Miami", zip: 33129 } }\<close>.
\<close>

definition person :: jsval where
  "person =
     JObj [(''name'', JFn ''String''),
           (''age'', JObj [(''type'', JFn ''Number''), (''required'', JBool False)]),
           (''address'', JObj [(''city'', JFn ''String''), (''zip'', JFn ''Number'')])]"

definition ann :: jsval where
  "ann =
     JObj [(''name'', JStr ''Ann''),
           (''address'', JObj [(''city'', JStr ''Miami''), (''zip'', JNum 33129)])]"



text \<open>
  The order of the last stages of a leaf, written from the specification: the cast of the
  node when one is declared, the cast of the transformer when \<open>autoCast\<close> is enabled, the
  validation of the transformer, the validation of the node (a validation keeps the value
  it is given), and the parse of the transformer. \<open>run_in_order\<close> runs a list of stages
  from left to right and stops at the first that throws.
\<close>

definition stages_in_order ::
  "hooks \<Rightarrow> transformer \<Rightarrow> settings_obj \<Rightarrow> self \<Rightarrow> (jsval \<Rightarrow> err + jsval) list" where
  "stages_in_order F T s me =
     [\<lambda>v. if truthy (sget s ''cast'') then call_fn F (sget s ''cast'') me v else Inr v,
      \<lambda>v. if truthy (sget s ''autoCast'')
           then (case t_cast T of Some c \<Rightarrow> c me v | None \<Rightarrow> Inr v) else Inr v,
      \<lambda>v. case t_validate T of
             Some check \<Rightarrow> (case check me v of Inl e \<Rightarrow> Inl e | Inr _ \<Rightarrow> Inr v)
           | None \<Rightarrow> Inr v,
      \<lambda>v. if truthy (sget s ''validate'')
           then (case call_fn F (sget s ''validate'') me v of Inl e \<Rightarrow> Inl e | Inr _ \<Rightarrow> Inr v)
           else Inr v,
      \<lambda>v. case t_parse T of Some p \<Rightarrow> p me v | None \<Rightarrow> Inr v]"

definition run_in_order :: "(jsval \<Rightarrow> err + jsval) list \<Rightarrow> jsval \<Rightarrow> err + jsval" where
  "run_in_order stages v =
     foldl (\<lambda>r stage. case r of Inl e \<Rightarrow> Inl e | Inr x \<Rightarrow> stage x) (Inr v) stages"

text \<open>
  \<open>failed_prefix pp this ts v\<close>: every candidate of the list \<open>ts\<close>, tried in order from the
  node \<open>this\<close>, throws; the result is the node left behind by the last attempt.
\<close>

fun failed_prefix ::
  "(schema \<Rightarrow> jsval \<Rightarrow> jsval \<Rightarrow> outcome) \<Rightarrow> schema \<Rightarrow> jsval list \<Rightarrow> jsval \<Rightarrow> schema option" where
  "failed_prefix pp this [] v = Some this"
| "failed_prefix pp this (t # ts) v =
     (case pp (set_currentType t this) t v of
        Some (Inl e, this') \<Rightarrow> failed_prefix pp this' ts v
      | _ \<Rightarrow> None)"

text \<open>
  What a nested node does with its children, written from the specification. Each child is
  parsed with the property of the input that bears its name (\<open>input_of\<close>). A child that
  throws adds to the error list what the error trapper keeps of the error (\<open>thrown_by\<close>); a
  child that returns a defined value adds its name and the value to the result (\<open>kept_by\<close>);
  \<open>left_by\<close> is the child after its parse. \<open>structural\<close> is what the structure validation
  adds to the error list. \<open>collected\<close>: a node that is not required returns \<open>undefined\<close> for
  \<open>undefined\<close>; otherwise every child is parsed, and the outcome is one error that carries
  the whole list when the list is not empty, the assembled object when it is.
  \<open>well_named\<close>: the names of the children are distinct (as the keys of the description
  are) and hold no dot. \<open>hook_free\<close>: no schema-level hook runs after the node is parsed.
\<close>

definition input_of :: "jsval \<Rightarrow> schema \<Rightarrow> jsval" where
  "input_of obj c =
     (if typeof obj = ''object'' \<and> obj \<noteq> Null then get_prop obj (name (node c)) else Undefined)"

definition dot_free :: "string \<Rightarrow> bool" where
  "dot_free s = (CHR ''.'' \<notin> set s)"

definition well_named :: "schema \<Rightarrow> bool" where
  "well_named this = (distinct (ownPaths this) \<and> (\<forall>p \<in> set (ownPaths this). dot_free p))"

definition thrown_by :: "outcome \<Rightarrow> err list" where
  "thrown_by out = (case out of Some (Inl e, c') \<Rightarrow> sandbox e | _ \<Rightarrow> [])"

definition kept_by :: "schema \<Rightarrow> outcome \<Rightarrow> props" where
  "kept_by c out =
     (case out of
        Some (Inr val, c') \<Rightarrow> if val \<noteq> Undefined then [(name (node c), val)] else []
      | _ \<Rightarrow> [])"

definition left_by :: "schema \<Rightarrow> outcome \<Rightarrow> schema" where
  "left_by c out = (case out of Some (r, c') \<Rightarrow> c' | None \<Rightarrow> c)"

definition structural :: "regexps \<Rightarrow> schema \<Rightarrow> jsval \<Rightarrow> err list" where
  "structural rx this obj = (case structureValidation rx this obj of Inl e \<Rightarrow> sandbox e | Inr u \<Rightarrow> [])"

definition collected ::
  "regexps \<Rightarrow> (schema \<Rightarrow> jsval \<Rightarrow> outcome) \<Rightarrow> registry \<Rightarrow> schema \<Rightarrow> jsval \<Rightarrow> outcome" where
  "collected rx pc R this obj =
     (if \<not> truthy (sget (settings R this) ''required'') \<and> obj = Undefined
      then Some (Inr Undefined, touch R this)
      else
        let outs = map (\<lambda>c. (c, pc c (input_of obj c))) (children this);
            errs = structural rx this obj @ concat (map (\<lambda>(c, out). thrown_by out) outs);
            after = Schema (node (touch R this)) (map (\<lambda>(c, out). left_by c out) outs)
        in if errs \<noteq> []
           then Some (Inl (ValidationError ''Data is not valid'' errs Undefined None), after)
           else Some (Inr (JObj (concat (map (\<lambda>(c, out). kept_by c out) outs))), after))"

definition hook_free :: "schema \<Rightarrow> bool" where
  "hook_free this =
     (parent (node this) \<noteq> None
      \<or> (\<not> truthy (priv_cast (node this)) \<and> \<not> truthy (priv_validate (node this))))"

text \<open>The message, the value and the field of a thrown \<open>ValidationError\<close>.\<close>

definition thrown_fields :: "outcome \<Rightarrow> (string \<times> jsval \<times> plink option) option" where
  "thrown_fields out =
     (case out of
        Some (Inl (ValidationError m es v f), this') \<Rightarrow> Some (m, v, f)
      | _ \<Rightarrow> None)"

text \<open>
  Parsing a value and then parsing the result with the same schema object, as the first
  round left it: \<open>schema.parse(schema.parse(x))\<close>. An error of the first round is the result.
\<close>

definition reparse ::
  "regexps \<Rightarrow> nat \<Rightarrow> registry \<Rightarrow> hooks \<Rightarrow> schema \<Rightarrow> jsval \<Rightarrow> (err + jsval) option" where
  "reparse rx n R F this x =
     (case parse rx n R F this x of
        None \<Rightarrow> None
      | Some (Inl e, this') \<Rightarrow> Some (Inl e)
      | Some (Inr y, this') \<Rightarrow> map_option fst (parse rx n R F this' y))"

text \<open>
  The casts of a leaf, as \<open>parseProperty\<close> runs them: the \<open>cast\<close> found in the settings of the
  node, then the \<open>cast\<close> of the transformer when \<open>autoCast\<close> is enabled. They are
  idempotent when they return again every value they returned, and return \<open>undefined\<close> for
  \<open>undefined\<close> only.
\<close>

definition casts :: "hooks \<Rightarrow> transformer \<Rightarrow> schema \<Rightarrow> jsval \<Rightarrow> err + jsval" where
  "casts F T this v =
     (let s = priv_defaultSettings (node this); me = self_of this in
      bind_err (runTransformer_settings F s ''cast'' me v) (\<lambda>v1.
        if truthy (sget s ''autoCast'') then runTransformer (t_cast T) me v1 else Inr v1))"

definition idempotent_casts :: "hooks \<Rightarrow> transformer \<Rightarrow> schema \<Rightarrow> bool" where
  "idempotent_casts F T this =
     (\<forall>v w. casts F T this v = Inr w \<longrightarrow>
        casts F T this w = Inr w \<and> (w = Undefined \<longrightarrow> v = Undefined))"

text \<open>
  A leaf is steady when \<open>parseProperty\<close> returns again every value it returned
  (\<open>returns_again\<close>). A leaf of any kind may be so, a union or one with loaders included.
  It is so for a leaf that is \<open>cast_stable\<close>: it has one type, a name that is either not
  registered or registered with no loaders (in the settings of the node or in the
  transformer), no transformer-level \<open>parse\<close> and idempotent casts.
\<close>

definition returns_again :: "registry \<Rightarrow> hooks \<Rightarrow> schema \<Rightarrow> bool" where
  "returns_again R F this =
     (\<forall>n v r this'. parseProperty n R F this (type (node this)) v = Some (Inr r, this') \<longrightarrow>
        (\<exists>this''. parseProperty n R F this' (type (node this)) r = Some (Inr r, this'')))"

definition cast_stable :: "registry \<Rightarrow> hooks \<Rightarrow> schema \<Rightarrow> bool" where
  "cast_stable R F this =
     (\<not> isArray (type (node this))
      \<and> (case R (to_str (type (node this))) of
            None \<Rightarrow> True
          | Some T \<Rightarrow>
              \<not> truthy (sget (settings R this) ''loaders'') \<and> \<not> truthy (t_loaders T)
              \<and> t_parse T = None \<and> idempotent_casts F T (touch R this)))"

definition steady_leaf :: "registry \<Rightarrow> hooks \<Rightarrow> schema \<Rightarrow> bool" where
  "steady_leaf R F this = (cast_stable R F this \<or> returns_again R F this)"

text \<open>
  A safe name holds no metacharacter of a regular expression (so no dot either) and is not
  the name of a member that every object inherits from \<open>Object.prototype\<close>: on the object
  that \<open>runChildren\<close> assembles, a read of such a name finds the inherited member when the
  object has no property of that name, whereas the property read of the model, \<open>get_prop\<close>,
  gives own properties only.

  A tree is steady when no schema-level hook runs on it, its leaves are steady, and the
  children of each of its nested nodes have distinct safe names.
\<close>

definition inherited_names :: "string list" where
  "inherited_names =
     [''constructor'', ''hasOwnProperty'', ''isPrototypeOf'', ''propertyIsEnumerable'',
      ''toLocaleString'', ''toString'', ''valueOf'', ''__proto__'', ''__defineGetter__'',
      ''__defineSetter__'', ''__lookupGetter__'', ''__lookupSetter__'']"

definition safe_name :: "string \<Rightarrow> bool" where
  "safe_name p = (regex_free p \<and> p \<notin> set inherited_names)"

fun steady_tree :: "registry \<Rightarrow> hooks \<Rightarrow> schema \<Rightarrow> bool" where
  "steady_tree R F (Schema nd cs) =
     (hook_free (Schema nd cs)
      \<and> (if cs = [] then steady_leaf R F (Schema nd [])
         else well_named (Schema nd cs) \<and> list_all safe_name (ownPaths (Schema nd cs))
              \<and> list_all (steady_tree R F) cs))"

text \<open>
  A condition that can be computed, for the examples. A plain leaf has one registered type
  and nothing that rewrites its value: no loaders, no \<open>cast\<close> in its settings, no
  transformer-level \<open>parse\<close>, and no transformer-level \<open>cast\<close> that \<open>autoCast\<close> would run. A
  plain tree is a steady tree whose leaves are plain.
\<close>

definition plain_leaf :: "registry \<Rightarrow> schema \<Rightarrow> bool" where
  "plain_leaf R this =
     (\<not> isArray (type (node this))
      \<and> \<not> truthy (sget (settings R this) ''loaders'')
      \<and> \<not> truthy (sget (settings R this) ''cast'')
      \<and> (case R (to_str (type (node this))) of
            None \<Rightarrow> False
          | Some T \<Rightarrow>
              \<not> truthy (t_loaders T)
              \<and> (case t_parse T of None \<Rightarrow> True | Some p \<Rightarrow> False)
              \<and> (case t_cast T of
                    None \<Rightarrow> True
                  | Some c \<Rightarrow> \<not> truthy (sget (settings R this) ''autoCast''))))"

fun plain_tree :: "registry \<Rightarrow> schema \<Rightarrow> bool" where
  "plain_tree R (Schema nd cs) =
     (hook_free (Schema nd cs)
      \<and> (if cs = [] then plain_leaf R (Schema nd [])
         else well_named (Schema nd cs) \<and> list_all safe_name (ownPaths (Schema nd cs))
              \<and> list_all (plain_tree R) cs))"

text \<open>A child parser that leaves the name of the node it is given.\<close>

definition names_kept :: "(schema \<Rightarrow> jsval \<Rightarrow> outcome) \<Rightarrow> bool" where
  "names_kept pc = (\<forall>c v r c'. pc c v = Some (r, c') \<longrightarrow> name (node c') = name (node c))"

section \<open>Properties\<close>

subsection \<open>The getter \<open>settings\<close> is idempotent\<close>

lemma touch_simps [simp]:
  "node (touch R this) = (node this)\<lparr>priv_defaultSettings := settings R this\<rparr>"
  "children (touch R this) = children this"
  by (simp_all add: touch_def)

lemma settings_touch: "settings R (touch R this) = settings R this"
  by (auto simp: settings_def hasChildren_def Let_def map_add_def fun_eq_iff split: option.splits)

lemma touch_idem: "touch R (touch R this) = touch R this"
  by (simp add: touch_def settings_touch [unfolded touch_def])

subsection \<open>Full paths\<close>

text \<open>
  Claim C8, as amended. The full path of a node is the full path of its parent, a dot and
  its name when it has a parent whose full path is not empty; it is its name when it has
  no parent, and also when the full path of its parent is empty (the children of a root
  with the default name \<open>''\<close>).
\<close>

theorem fullPath_of_parent:
  "fullPath this =
     (case parent (node this) of
        None \<Rightarrow> name (node this)
      | Some p \<Rightarrow>
          if fullPath_link p = [] then name (node this)
          else fullPath_link p @ ''.'' @ name (node this))"
  by (simp add: fullPath_def link_of_def split: option.splits)

theorem fullPath_of_parent_witness:
  "fullPath (Schema (new_node ''city'' (Some (PLink ''address'' (Some (PLink [] None))))
       Undefined Undefined Map.empty (JStr ''String'')) []) = ''address.city''"
  using fullPath_of_parent [of "Schema (new_node ''city'' (Some (PLink ''address'' (Some (PLink [] None))))
       Undefined Undefined Map.empty (JStr ''String'')) []"]
  by (simp add: new_node_def)

text \<open>
  Claim C8 as stated fails on the child \<open>a\<close> of a root named \<open>''\<close>: the node has a parent,
  and its full path is \<open>a\<close>, not \<open>.a\<close>.
\<close>

theorem fullPath_root_child_counterexample:
  "parent (node (Schema (new_node ''a'' (Some (PLink [] None)) Undefined Undefined Map.empty
       (JStr ''String'')) [])) = Some (PLink [] None)
   \<and> fullPath (Schema (new_node ''a'' (Some (PLink [] None)) Undefined Undefined Map.empty
       (JStr ''String'')) []) = ''a''
   \<and> fullPath_link (PLink [] None) @ ''.'' @ ''a'' = ''.a''"
  by (simp add: new_node_def fullPath_def link_of_def)

subsection \<open>Path resolution\<close>

text \<open>
  Claim C9 on the schema \<^verbatim>\<open>{ a: { b: { c: String } } }\<close>: the path \<open>a.b.c\<close> resolves to the
  node \<open>a.b\<close>, as \<open>a.b\<close> does, because only two segments of a path are read; and the path
  \<open>x.y\<close>, whose first segment matches no child, throws.
\<close>

theorem schemaAtPath_three_segments:
  "map_sum id (map_option fullPath) (schemaAtPath (built nested3) ''a.b.c'') = Inr (Some ''a.b'')
   \<and> map_sum id (map_option fullPath) (schemaAtPath (built nested3) ''a.b'') = Inr (Some ''a.b'')
   \<and> map_sum id (map_option fullPath) (schemaAtPath (built nested3) ''x.y'')
       = Inl (TypeError ''Cannot read property schemaAtPath of undefined'')"
  by code_simp

subsection \<open>Construction of a leaf\<close>



lemma leaf_settings_default:
  "lookup ps ''default'' \<noteq> Undefined \<Longrightarrow> leaf_settings s (JObj ps) ''default'' = Some (lookup ps ''default'')"
  by (auto simp: leaf_settings_def map_add_def lookup_def split: option.splits)










subsection \<open>What parsing leaves unchanged\<close>

lemma same_static_refl [simp]: "same_static this this"
  by (simp add: same_static_def)

lemma same_static_trans: "same_static a b \<Longrightarrow> same_static b c \<Longrightarrow> same_static a c"
  by (simp add: same_static_def)

lemma same_static_touch [simp]: "same_static this (touch R this)"
  by (simp add: same_static_def)

lemma same_static_set_currentType [simp]: "same_static this (set_currentType t this)"
  by (simp add: same_static_def set_currentType_def)

lemma same_static_share [simp]: "same_static this (share_defaults clone this)"
  by (simp add: same_static_def share_defaults_def)

lemma same_static_link: "same_static this this' \<Longrightarrow> link_of this' = link_of this"
  by (simp add: same_static_def link_of_def)

lemma same_static_fullPath: "same_static this this' \<Longrightarrow> fullPath this' = fullPath this"
  by (simp add: fullPath_def same_static_link)

lemma same_static_hasChildren: "same_static this this' \<Longrightarrow> hasChildren this' = hasChildren this"
  by (simp add: same_static_def hasChildren_def)

lemma unionLoop_static:
  "preserves pp \<Longrightarrow> unionLoop pp this ts v = Some (r, this') \<Longrightarrow> same_static this this'"
proof (induction ts arbitrary: this)
  case Nil
  then show ?case by simp
next
  case (Cons t ts)
  show ?case
  proof (cases "pp (set_currentType t this) t v")
    case None
    with Cons.prems show ?thesis by simp
  next
    case (Some a)
    obtain res st where a: "a = (res, st)" by (cases a)
    from Cons.prems(1) Some a have s1: "same_static (set_currentType t this) st"
      by (auto simp: preserves_def)
    have s0: "same_static this st"
      by (rule same_static_trans [OF same_static_set_currentType s1])
    show ?thesis
    proof (cases res)
      case (Inl e)
      with Cons.prems Some a have "unionLoop pp st ts v = Some (r, this')" by simp
      from Cons.IH [OF Cons.prems(1) this] s0 show ?thesis by (blast intro: same_static_trans)
    next
      case (Inr x)
      with Cons.prems Some a s0 show ?thesis by simp
    qed
  qed
qed

lemma processLoaders_loop_static:
  "processLoaders_loop pp this v ls = Some (r, this') \<Longrightarrow> same_static this this'"
proof (induction ls arbitrary: this v)
  case Nil
  then show ?case by simp
next
  case (Cons l ls)
  let ?ls = "if typeof l \<noteq> ''object'' then JObj [(''type'', l)] else l"
  show ?case
  proof (cases "guessType ?ls")
    case (Inl e)
    with Cons.prems show ?thesis by (simp add: Let_def)
  next
    case (Inr ty)
    show ?thesis
    proof (cases "pp (loader_clone this ?ls ty) ty v")
      case None
      with Cons.prems Inr show ?thesis by (simp add: Let_def)
    next
      case (Some a)
      obtain res st where a: "a = (res, st)" by (cases a)
      show ?thesis
      proof (cases res)
        case (Inl e)
        with Cons.prems Inr Some a show ?thesis by (auto simp: Let_def)
      next
        case r: (Inr x)
        with Cons.prems Inr Some a
        have "processLoaders_loop pp (share_defaults st this) x ls = Some (r, this')"
          by (simp add: Let_def)
        from Cons.IH [OF this] show ?thesis
          by (blast intro: same_static_trans same_static_share)
      qed
    qed
  qed
qed

lemma processLoaders_static:
  "processLoaders pp this v ls = Some (r, this') \<Longrightarrow> same_static this this'"
  unfolding processLoaders_def by (rule processLoaders_loop_static)

lemma run_loaders_static:
  "run_loaders pp T this v = Some (r, this') \<Longrightarrow> same_static this this'"
  unfolding run_loaders_def Let_def
  by (auto split: if_splits option.splits sum.splits prod.splits
      dest: processLoaders_static intro: same_static_trans)

lemma resolve_static:
  "resolve pp R F T this v = Some (r, this') \<Longrightarrow> same_static this this'"
  unfolding resolve_def Let_def
  by (auto split: if_splits option.splits sum.splits prod.splits
      dest!: run_loaders_static intro: same_static_trans [OF same_static_touch]
        same_static_trans [OF same_static_touch same_static_trans [OF _ same_static_touch]])

lemma parseProperty_body_static:
  "preserves pp \<Longrightarrow> parseProperty_body pp R F this ty v = Some (r, this') \<Longrightarrow> same_static this this'"
  unfolding parseProperty_body_def Let_def
  by (auto split: if_splits option.splits sum.splits prod.splits jsval.splits
      dest!: resolve_static unionLoop_static intro: same_static_trans [OF same_static_touch])

lemma parseProperty_preserves: "preserves (parseProperty n R F)"
proof (induction n)
  case 0
  show ?case by (simp add: preserves_def)
next
  case (Suc n)
  show ?case
    unfolding preserves_def
  proof (intro allI impI)
    fix this ty v r this'
    assume "parseProperty (Suc n) R F this ty v = Some (r, this')"
    then have "parseProperty_body (parseProperty n R F) R F this ty v = Some (r, this')" by simp
    from parseProperty_body_static [OF Suc.IH this] show "same_static this this'" .
  qed
qed

lemma parseProperty_static:
  "parseProperty n R F this ty v = Some (r, this') \<Longrightarrow> same_static this this'"
  using parseProperty_preserves [of n R F] by (auto simp: preserves_def)

subsection \<open>A leaf parsed with \<open>undefined\<close>\<close>

declare parseProperty.simps(2) [simp del] and parse.simps(2) [simp del]

lemma resolve_touch: "resolve pp R F T (touch R this) v = resolve pp R F T this v"
  by (simp add: resolve_def touch_idem)

lemma parseProperty_single:
  assumes "\<not> isArray ty" and "R (to_str ty) = Some T"
    and "\<not> (v = Null \<and> truthy (sget (settings R this) ''allowNull''))"
  shows "parseProperty (Suc n) R F this ty v = resolve (parseProperty n R F) R F T this v"
  using assms by (cases ty) (auto simp: parseProperty.simps(2) parseProperty_body_def resolve_touch)




lemma default_stage_defined: "v \<noteq> Undefined \<Longrightarrow> default_stage F this v = Inr v"
  by (simp add: default_stage_def)

lemma resolve_substitutes:
  assumes "default_stage F (touch R this) Undefined = Inr d"
  shows "resolve pp R F T this Undefined = resolve pp R F T this d"
proof (cases "d = Undefined")
  case True
  then show ?thesis by simp
next
  case False
  then have "default_stage F (touch R this) d = Inr d" by (rule default_stage_defined)
  with assms False show ?thesis by (simp add: resolve_def)
qed




lemma touch_derived [simp]:
  "link_of (touch R this) = link_of this" "fullPath (touch R this) = fullPath this"
  by (simp_all add: same_static_link same_static_fullPath)





subsection \<open>The order of the stages\<close>

lemma foldl_thrown:
  "foldl (\<lambda>r stage. case r of Inl e \<Rightarrow> Inl e | Inr x \<Rightarrow> stage x) (Inl e) stages = Inl e"
  by (induction stages) simp_all

lemma run_in_order_Nil: "run_in_order [] v = Inr v"
  by (simp add: run_in_order_def)

lemma run_in_order_Cons: "run_in_order (stage # stages) v = bind_err (stage v) (run_in_order stages)"
  by (cases "stage v") (simp_all add: run_in_order_def bind_err_def foldl_thrown)

lemma bind_err_cong:
  "r = r' \<Longrightarrow> (\<And>x. r' = Inr x \<Longrightarrow> f x = g x) \<Longrightarrow> bind_err r f = bind_err r' g"
  by (cases r') (simp_all add: bind_err_def)

lemma bind_err_keep:
  "bind_err (case r of Inl e \<Rightarrow> Inl e | Inr _ \<Rightarrow> Inr v) k = bind_err r (\<lambda>_. k v)"
  by (cases r) (simp_all add: bind_err_def)

lemma bind_err_Inr: "bind_err (Inr x) k = k x"
  by (simp add: bind_err_def)

lemma run_stages_in_order:
  "run_stages F T this v =
     run_in_order (stages_in_order F T (priv_defaultSettings (node this)) (self_of this)) v"
proof -
  have nil: "run_in_order [] = Inr" by (rule ext) (rule run_in_order_Nil)
  have r: "bind_err r Inr = r" for r :: "err + jsval"
    by (cases r) (simp_all add: bind_err_def)
  have k: "bind_err r (\<lambda>_. Inr x) = (case r of Inl e \<Rightarrow> Inl e | Inr _ \<Rightarrow> Inr x)"
    for r :: "err + jsval" and x :: jsval
    by (simp add: bind_err_def)
  show ?thesis
    unfolding run_stages_def Let_def stages_in_order_def run_in_order_Cons nil
    by (cases "t_validate T"; cases "t_parse T"; cases "t_cast T";
        cases "truthy (sget (priv_defaultSettings (node this)) ''validate'')")
       (simp_all add: runTransformer_def runTransformer_settings_def bind_err_keep bind_err_Inr r k)
qed

text \<open>
  Claim C3. On a leaf whose type is a single registered transformer name, once the value has
  passed the \<open>null\<close> short-circuit, the default stage and the required check, and the
  loaders have returned \<open>v3\<close>, the outcome of \<open>parseProperty\<close> is that of the stages of
  \<open>stages_in_order\<close> run in that order on \<open>v3\<close>, with the settings as merged after the
  loaders; the value of the last stage, the parse of the transformer, is the value returned.
\<close>

theorem stages_order:
  assumes "\<not> isArray ty" and "R (to_str ty) = Some T"
    and "\<not> (v = Null \<and> truthy (sget (settings R this) ''allowNull''))"
    and "default_stage F (touch R this) v = Inr v1"
    and "v1 \<noteq> Undefined
         \<or> (truthy (sget (settings R this) ''required'') \<and> required_stage (touch R this) v1 = None)"
  shows "parseProperty (Suc n) R F this ty v =
     (case run_loaders (parseProperty n R F) T (touch R this) v1 of
        None \<Rightarrow> None
      | Some (Inl e, this3) \<Rightarrow> Some (Inl e, this3)
      | Some (Inr v3, this3) \<Rightarrow>
          Some (run_in_order (stages_in_order F T (settings R this3) (self_of (touch R this3))) v3,
                touch R this3))"
proof -
  have "parseProperty (Suc n) R F this ty v = resolve (parseProperty n R F) R F T this v"
    using assms(1-3) by (rule parseProperty_single)
  also have "\<dots> =
     (case run_loaders (parseProperty n R F) T (touch R this) v1 of
        None \<Rightarrow> None
      | Some (Inl e, this3) \<Rightarrow> Some (Inl e, this3)
      | Some (Inr v3, this3) \<Rightarrow> Some (run_stages F T (touch R this3) v3, touch R this3))"
    using assms(4,5) by (cases "v1 = Undefined") (simp_all add: resolve_def Let_def)
  also have "\<dots> =
     (case run_loaders (parseProperty n R F) T (touch R this) v1 of
        None \<Rightarrow> None
      | Some (Inl e, this3) \<Rightarrow> Some (Inl e, this3)
      | Some (Inr v3, this3) \<Rightarrow>
          Some (run_in_order (stages_in_order F T (settings R this3) (self_of (touch R this3))) v3,
                touch R this3))"
    by (simp add: run_stages_in_order split: option.splits sum.splits prod.splits)
  finally show ?thesis .
qed



theorem stages_order_witness:
  "map_option fst
     (parseProperty (Suc 0) (Transformers ex_rt) ex_hooks (built cast_then_validate)
        (JStr ''Number'') (JNum 0)) = Some (Inr (JNum 1))
   \<and> map_option fst
     (parseProperty (Suc 0) (Transformers ex_rt) ex_hooks (built cast_then_validate)
        (JStr ''Number'') (JNum (- 1))) = Some (Inl (Error ''must be positive''))"
proof -
  let ?R = "Transformers ex_rt" and ?leaf = "built cast_then_validate"
  have h1: "\<not> isArray (JStr ''Number'')" by simp
  have h2: "?R (to_str (JStr ''Number'')) = Some (Number_t ex_rt)"
    by (simp add: Transformers_def)
  have nl: "\<not> truthy (sget (priv_defaultSettings (node (touch ?R ?leaf))) ''loaders'')"
    by code_simp
  have tl: "\<not> truthy (t_loaders (Number_t ex_rt))" by code_simp
  have rl: "run_loaders pp (Number_t ex_rt) (touch ?R ?leaf) x
      = Some (Inr x, touch ?R ?leaf)" for x pp
    using nl tl by (simp add: run_loaders_def)
  have e0: "run_in_order (stages_in_order ex_hooks (Number_t ex_rt) (settings ?R (touch ?R ?leaf))
        (self_of (touch ?R (touch ?R ?leaf)))) (JNum 0) = Inr (JNum 1)"
    by code_simp
  have e1: "run_in_order (stages_in_order ex_hooks (Number_t ex_rt) (settings ?R (touch ?R ?leaf))
        (self_of (touch ?R (touch ?R ?leaf)))) (JNum (- 1)) = Inl (Error ''must be positive'')"
    by code_simp
  have a: "parseProperty (Suc 0) ?R ex_hooks ?leaf (JStr ''Number'') x =
     Some (run_in_order (stages_in_order ex_hooks (Number_t ex_rt) (settings ?R (touch ?R ?leaf))
        (self_of (touch ?R (touch ?R ?leaf)))) x, touch ?R (touch ?R ?leaf))"
    if "x \<noteq> Undefined" "x \<noteq> Null" for x
    using stages_order [where ty = "JStr ''Number''" and R = ?R and T = "Number_t ex_rt"
        and this = ?leaf and F = ex_hooks and n = 0 and v = x and ?v1.0 = x, OF h1 h2] that
    by (simp add: default_stage_defined rl)
  show ?thesis
    using a [of "JNum 0"] a [of "JNum (- 1)"] e0 e1 by simp
qed

subsection \<open>Union types\<close>

lemma unionLoop_failed:
  "unionLoop pp this ts v = Some (None, this') \<longleftrightarrow> failed_prefix pp this ts v = Some this'"
proof (induction ts arbitrary: this)
  case Nil
  show ?case by auto
next
  case (Cons t ts)
  show ?case
  proof (cases "pp (set_currentType t this) t v")
    case None
    then show ?thesis by simp
  next
    case (Some a)
    obtain r st where a: "a = (r, st)" by (cases a)
    show ?thesis
      using Some a Cons.IH [of st] by (cases r) simp_all
  qed
qed


lemma failed_prefix_static:
  "preserves pp \<Longrightarrow> failed_prefix pp this ts v = Some this' \<Longrightarrow> same_static this this'"
  using unionLoop_failed [of pp this ts v this'] by (auto dest: unionLoop_static)





subsection \<open>Nested nodes\<close>

declare schemaAtPath.simps [simp del] and putAtPath.simps [simp del]

lemma split_dot_dot_free: "dot_free s \<Longrightarrow> split_dot s = [s]"
  by (induction s) (auto simp: dot_free_def)

lemma split2_dot_free: "dot_free s \<Longrightarrow> split2 s = (s, None)"
  by (simp add: split2_def split_dot_dot_free)

lemma replace_dot_tail_dot_free: "dot_free s \<Longrightarrow> replace_dot_tail s = s"
  by (induction s) (auto simp: dot_free_def)

lemma find_append_skip: "\<forall>x \<in> set xs. \<not> P x \<Longrightarrow> List.find P (xs @ ys) = List.find P ys"
  by (induction xs) auto

lemma map_first_append_skip:
  "\<forall>x \<in> set xs. \<not> P x \<Longrightarrow> map_first P f (xs @ ys) = xs @ map_first P f ys"
  by (induction xs) auto

lemma set_prop_append: "k \<notin> fst ` set res \<Longrightarrow> set_prop res k v = res @ [(k, v)]"
  by (induction res) auto

lemma schemaAtPath_child:
  assumes "dot_free (name (node c))" and "\<forall>d \<in> set done. name (node d) \<noteq> name (node c)"
  shows "schemaAtPath (Schema n (done @ c # todo)) (name (node c)) = Inr (Some c)"
  using assms by (simp add: schemaAtPath.simps split2_dot_free find_append_skip)

lemma putAtPath_child:
  assumes "dot_free (name (node c))" and "\<forall>d \<in> set done. name (node d) \<noteq> name (node c)"
  shows "putAtPath (Schema n (done @ c # todo)) (name (node c)) c' = Schema n (done @ c' # todo)"
  using assms by (simp add: putAtPath.simps split2_dot_free map_first_append_skip)

lemma runChildren_loop_collects:
  assumes "\<forall>c \<in> set todo. dot_free (name (node c))"
    and "distinct (map (\<lambda>c. name (node c)) todo)"
    and "\<forall>d \<in> set done. \<forall>c \<in> set todo. name (node d) \<noteq> name (node c)"
    and "\<forall>c \<in> set todo. \<exists>r c'. pc c (input_of obj c) = Some (r, c') \<and> name (node c') = name (node c)"
    and "\<forall>c \<in> set todo. name (node c) \<notin> fst ` set res"
  shows "runChildren_loop pc (Schema n (done @ todo)) obj (map (\<lambda>c. name (node c)) todo) res errs =
     Some (Inr (res @ concat (map (\<lambda>c. kept_by c (pc c (input_of obj c))) todo),
                errs @ concat (map (\<lambda>c. thrown_by (pc c (input_of obj c))) todo)),
           Schema n (done @ map (\<lambda>c. left_by c (pc c (input_of obj c))) todo))"
  using assms
proof (induction todo arbitrary: "done" res errs)
  case Nil
  show ?case by simp
next
  case (Cons c cs)
  from Cons.prems(4) obtain r c' where out: "pc c (input_of obj c) = Some (r, c')"
    and nm: "name (node c') = name (node c)" by auto
  have df: "dot_free (name (node c))" using Cons.prems(1) by simp
  have sk: "\<forall>d \<in> set done. name (node d) \<noteq> name (node c)" using Cons.prems(3) by simp
  have at: "schemaAtPath (Schema n (done @ c # cs)) (name (node c)) = Inr (Some c)"
    using df sk by (rule schemaAtPath_child)
  have put: "putAtPath (Schema n (done @ c # cs)) (name (node c)) c' = Schema n ((done @ [c']) @ cs)"
    using putAtPath_child [OF df sk, of n cs c'] by simp
  have inp: "(if typeof obj = ''object'' \<and> obj \<noteq> Null then get_prop obj (name (node c)) else Undefined)
      = input_of obj c" by (simp add: input_of_def)
  have p1: "\<forall>c \<in> set cs. dot_free (name (node c))" using Cons.prems(1) by simp
  have p2: "distinct (map (\<lambda>c. name (node c)) cs)" using Cons.prems(2) by simp
  have p3: "\<forall>d \<in> set (done @ [c']). \<forall>x \<in> set cs. name (node d) \<noteq> name (node x)"
    using Cons.prems(2,3) nm by auto
  have p4: "\<forall>x \<in> set cs. \<exists>r c'. pc x (input_of obj x) = Some (r, c') \<and> name (node c') = name (node x)"
    using Cons.prems(4) by simp
  have fresh: "name (node c) \<notin> fst ` set res" using Cons.prems(5) by simp
  show ?case
  proof (cases r)
    case (Inl e)
    have p5: "\<forall>x \<in> set cs. name (node x) \<notin> fst ` set res" using Cons.prems(5) by simp
    from Cons.IH [OF p1 p2 p3 p4 p5, of "errs @ sandbox e"] Inl out at put inp
    show ?thesis
      by (simp add: replace_dot_tail_dot_free [OF df] thrown_by_def kept_by_def left_by_def)
  next
    case (Inr val)
    let ?res = "if val \<noteq> Undefined then set_prop res (name (node c)) val else res"
    have res: "?res = res @ kept_by c (pc c (input_of obj c))"
      using out Inr fresh by (simp add: kept_by_def set_prop_append)
    have ne: "\<forall>x \<in> set cs. name (node x) \<noteq> name (node c)"
      using Cons.prems(2) by (auto simp: image_iff)
    have p5: "\<forall>x \<in> set cs. name (node x) \<notin> fst ` set ?res"
      using Cons.prems(5) fresh ne by (auto simp: set_prop_append)
    from Cons.IH [OF p1 p2 p3 p4 p5, of errs] Inr out at put inp res
    show ?thesis
      by (simp add: replace_dot_tail_dot_free [OF df] thrown_by_def left_by_def)
  qed
qed

lemma structureValidation_touch [simp]:
  "structureValidation rx (touch R this) obj = structureValidation rx this obj"
proof -
  have "paths (touch R this) = paths this"
    by (cases this) (simp add: touch_def)
  then have h: "hasField (touch R this) = hasField this"
    by (simp add: hasField_def fun_eq_iff)
  have o: "ownPaths (touch R this) = ownPaths this" "hasChildren (touch R this) = hasChildren this"
    by (simp_all add: ownPaths_def hasChildren_def)
  show ?thesis
    unfolding structureValidation_def h o ..
qed

lemma runChildren_collects:
  assumes "well_named this"
    and "\<forall>c \<in> set (children this). \<exists>r c'.
           pc c (input_of obj c) = Some (r, c') \<and> name (node c') = name (node c)"
  shows "runChildren rx pc R this obj = collected rx pc R this obj"
proof (cases "\<not> truthy (sget (settings R this) ''required'') \<and> obj = Undefined")
  case True
  then show ?thesis by (simp add: runChildren_def collected_def)
next
  case False
  have wn: "\<forall>c \<in> set (children this). dot_free (name (node c))"
    "distinct (map (\<lambda>c. name (node c)) (children this))"
    using assms(1) by (simp_all add: well_named_def ownPaths_def)
  have t: "touch R this = Schema (node (touch R this)) ([] @ children this)"
    by (simp add: touch_def)
  have loop: "runChildren_loop pc (touch R this) obj (ownPaths (touch R this)) [] (structural rx this obj) =
     Some (Inr ([] @ concat (map (\<lambda>c. kept_by c (pc c (input_of obj c))) (children this)),
                structural rx this obj @ concat (map (\<lambda>c. thrown_by (pc c (input_of obj c))) (children this))),
           Schema (node (touch R this)) ([] @ map (\<lambda>c. left_by c (pc c (input_of obj c))) (children this)))"
    apply (subst t)
    apply (simp only: ownPaths_def touch_simps)
    apply (rule runChildren_loop_collects)
    using wn assms(2) by simp_all
  have rc: "runChildren rx pc R this obj =
     (case runChildren_loop pc (touch R this) obj (ownPaths (touch R this)) [] (structural rx this obj) of
        None \<Rightarrow> None
      | Some (Inl e, this2) \<Rightarrow> Some (Inl e, this2)
      | Some (Inr (resultingObject, errs), this2) \<Rightarrow>
          if errs \<noteq> []
          then Some (Inl (ValidationError ''Data is not valid'' errs Undefined None), this2)
          else Some (Inr (JObj resultingObject), this2))"
    using False by (auto simp: runChildren_def Let_def structural_def)
  have cl: "collected rx pc R this obj =
     (let errs = structural rx this obj @ concat (map (\<lambda>c. thrown_by (pc c (input_of obj c))) (children this));
          after = Schema (node (touch R this)) (map (\<lambda>c. left_by c (pc c (input_of obj c))) (children this))
      in if errs \<noteq> []
         then Some (Inl (ValidationError ''Data is not valid'' errs Undefined None), after)
         else Some (Inr (JObj (concat (map (\<lambda>c. kept_by c (pc c (input_of obj c))) (children this)))),
                    after))"
    using False by (auto simp: collected_def Let_def comp_def)
  show ?thesis
    unfolding rc cl loop by (simp add: Let_def)
qed


lemma putAtPath_node [simp]: "node (putAtPath this p new) = node this"
  by (subst putAtPath.simps) (simp split: prod.splits)

lemma runChildren_loop_node:
  "runChildren_loop pc this obj ps res errs = Some (r, this') \<Longrightarrow> node this' = node this"
proof (induction ps arbitrary: this res errs)
  case Nil
  then show ?case by simp
next
  case (Cons p ps)
  show ?case
  proof (cases "schemaAtPath this (replace_dot_tail p)")
    case (Inl e)
    with Cons.prems show ?thesis by simp
  next
    case (Inr found)
    show ?thesis
    proof (cases found)
      case None
      show ?thesis
      proof (cases "typeof obj = ''object'' \<and> obj \<noteq> Null")
        case True
        with Cons.prems Inr None show ?thesis by simp
      next
        case False
        with Cons.prems Inr None
        have "runChildren_loop pc this obj ps res
                (errs @ [TypeError ''Cannot read property parse of undefined'']) = Some (r, this')"
          by (simp split: if_splits)
        then show ?thesis by (rule Cons.IH)
      qed
    next
      case (Some sch)
      let ?input = "if typeof obj = ''object'' \<and> obj \<noteq> Null then get_prop obj (name (node sch)) else Undefined"
      show ?thesis
      proof (cases "pc sch ?input")
        case None
        with Cons.prems Inr Some show ?thesis by (simp add: Let_def)
      next
        case out: (Some a)
        obtain res1 sch' where a: "a = (res1, sch')" by (cases a)
        from Cons.prems Inr Some out a obtain res' errs' where
          "runChildren_loop pc (putAtPath this (replace_dot_tail p) sch') obj ps res' errs' = Some (r, this')"
          by (cases res1) (auto simp: Let_def)
        from Cons.IH [OF this] show ?thesis by simp
      qed
    qed
  qed
qed

lemma runChildren_node:
  "runChildren rx pc R this obj = Some (r, this') \<Longrightarrow> node this' = node (touch R this)"
  unfolding runChildren_def Let_def
  by (auto split: if_splits option.splits sum.splits prod.splits dest: runChildren_loop_node)

lemma parse_node_static:
  assumes "parse rx n R F this v = Some (r, this')"
  shows "name (node this') = name (node this) \<and> parent (node this') = parent (node this)
     \<and> priv_cast (node this') = priv_cast (node this)
     \<and> priv_validate (node this') = priv_validate (node this)"
proof (cases n)
  case 0
  with assms show ?thesis by simp
next
  case (Suc m)
  show ?thesis
  proof (cases "hasChildren this")
    case True
    with assms Suc obtain r1 where "runChildren rx (parse rx m R F) R this v = Some (r1, this')"
      by (auto simp: parse.simps(2) split: option.splits sum.splits prod.splits if_splits)
    from runChildren_node [OF this] show ?thesis by simp
  next
    case False
    with assms Suc obtain r1 where
      "parseProperty (Suc m) R F this (type (node this)) v = Some (r1, this')"
      by (auto simp: parse.simps(2) split: option.splits sum.splits prod.splits if_splits)
    from parseProperty_static [OF this] show ?thesis by (simp add: same_static_def)
  qed
qed

lemma root_hooks_none:
  "\<not> truthy (priv_cast (node this)) \<Longrightarrow> \<not> truthy (priv_validate (node this)) \<Longrightarrow>
   root_hooks R F this v = Inr v"
  by (simp add: root_hooks_def run_hook_def bind_err_def)

lemma parse_hook_free:
  assumes "hook_free this"
  shows "parse rx (Suc n) R F this v =
     (if hasChildren this then runChildren rx (parse rx n R F) R this v
      else parseProperty (Suc n) R F this (type (node this)) v)"
proof -
  let ?inner = "if hasChildren this then runChildren rx (parse rx n R F) R this v
      else parseProperty (Suc n) R F this (type (node this)) v"
  show ?thesis
  proof (cases ?inner)
    case None
    then show ?thesis by (simp add: parse.simps(2))
  next
    case (Some a)
    obtain r this' where a: "a = (r, this')" by (cases a)
    have st: "parent (node this') = parent (node this) \<and> priv_cast (node this') = priv_cast (node this)
      \<and> priv_validate (node this') = priv_validate (node this)"
    proof (cases "hasChildren this")
      case True
      with Some a have "runChildren rx (parse rx n R F) R this v = Some (r, this')" by simp
      from runChildren_node [OF this] show ?thesis by simp
    next
      case False
      with Some a have "parseProperty (Suc n) R F this (type (node this)) v = Some (r, this')" by simp
      from parseProperty_static [OF this] show ?thesis by (simp add: same_static_def)
    qed
    show ?thesis
    proof (cases r)
      case (Inl e)
      with Some a show ?thesis by (simp add: parse.simps(2))
    next
      case (Inr x)
      from assms st have "parent (node this') \<noteq> None \<or> root_hooks R F this' x = Inr x"
        by (auto simp: hook_free_def root_hooks_none)
      with Some a Inr show ?thesis by (auto simp: parse.simps(2))
    qed
  qed
qed

lemma children_return:
  assumes "\<forall>c \<in> set cs. parse rx n R F c (input_of obj c) \<noteq> None"
  shows "\<forall>c \<in> set cs. \<exists>r c'. parse rx n R F c (input_of obj c) = Some (r, c')
           \<and> name (node c') = name (node c)"
proof
  fix c assume "c \<in> set cs"
  with assms obtain r c' where p: "parse rx n R F c (input_of obj c) = Some (r, c')" by fastforce
  from parse_node_static [OF p] p
  show "\<exists>r c'. parse rx n R F c (input_of obj c) = Some (r, c') \<and> name (node c') = name (node c)"
    by blast
qed

text \<open>
  Claim C1, as amended. For a nested node whose children are well named, and an input on
  which every child returns or throws (the fuel suffices), \<open>runChildren\<close> does what
  \<open>collected\<close> says: unless the node is not required and the input is \<open>undefined\<close> (then it
  returns \<open>undefined\<close> at once), every child is parsed whatever the others did, the
  structural errors and what each failing child threw (its sub-errors when it has some,
  the error itself otherwise) make one list, and the outcome is an error with the message
  \<open>Data is not valid\<close> carrying the list when it is not empty, the assembled object
  otherwise. \<open>parse\<close> does the same on a node after which no schema-level hook runs.
\<close>

theorem nested_collects_all:
  assumes "hasChildren this" and "well_named this"
    and "\<forall>c \<in> set (children this). parse rx n R F c (input_of obj c) \<noteq> None"
  shows "runChildren rx (parse rx n R F) R this obj = collected rx (parse rx n R F) R this obj
     \<and> (hook_free this \<longrightarrow> parse rx (Suc n) R F this obj = collected rx (parse rx n R F) R this obj)"
proof -
  have "runChildren rx (parse rx n R F) R this obj = collected rx (parse rx n R F) R this obj"
    using assms(2) children_return [OF assms(3)] by (rule runChildren_collects)
  then show ?thesis using assms(1) by (simp add: parse_hook_free)
qed


lemma returning_children:
  "list_all (\<lambda>c. map_option (\<lambda>out. ()) (parse rx n R F c (input_of obj c)) = Some ()) cs \<Longrightarrow>
   \<forall>c \<in> set cs. parse rx n R F c (input_of obj c) \<noteq> None"
  by (auto simp: list_all_iff)

theorem nested_collects_all_witness:
  "\<forall>rx.
     map_option fst (parse rx 3 (Transformers ex_rt) ex_hooks (built person) wrong_city)
       = Some (Inl (ValidationError ''Data is not valid''
           [ValidationError ''Property name is required'' [] Undefined
              (Some (PLink ''name'' (Some (PLink [] None)))),
            Error ''Unknown property city'', Error ''Unknown property foo'',
            ValidationError ''Invalid string'' [] (JNum 1)
              (Some (PLink ''city'' (Some (PLink ''address'' (Some (PLink [] None)))))),
            ValidationError ''Property address.zip is required'' [] Undefined
              (Some (PLink ''zip'' (Some (PLink ''address'' (Some (PLink [] None))))))]
           Undefined None))"
proof (rule allI)
  fix rx
  show "map_option fst (parse rx 3 (Transformers ex_rt) ex_hooks (built person) wrong_city)
       = Some (Inl (ValidationError ''Data is not valid''
           [ValidationError ''Property name is required'' [] Undefined
              (Some (PLink ''name'' (Some (PLink [] None)))),
            Error ''Unknown property city'', Error ''Unknown property foo'',
            ValidationError ''Invalid string'' [] (JNum 1)
              (Some (PLink ''city'' (Some (PLink ''address'' (Some (PLink [] None)))))),
            ValidationError ''Property address.zip is required'' [] Undefined
              (Some (PLink ''zip'' (Some (PLink ''address'' (Some (PLink [] None))))))]
           Undefined None))"
  proof -
    let ?R = "Transformers ex_rt"
    have h: "hasChildren (built person)" and w: "well_named (built person)"
      and f: "hook_free (built person)"
      by code_simp+
    have "list_all (\<lambda>c. map_option (\<lambda>out. ()) (parse rx 2 ?R ex_hooks c (input_of wrong_city c)) = Some ())
        (children (built person))"
      by code_simp
    then have r: "\<forall>c \<in> set (children (built person)). parse rx 2 ?R ex_hooks c (input_of wrong_city c) \<noteq> None"
      by (rule returning_children)
    have "parse rx (Suc 2) ?R ex_hooks (built person) wrong_city
        = collected rx (parse rx 2 ?R ex_hooks) ?R (built person) wrong_city"
      using nested_collects_all [OF h w r] f by blast
    moreover have "map_option fst (collected rx (parse rx 2 ?R ex_hooks) ?R (built person) wrong_city)
       = Some (Inl (ValidationError ''Data is not valid''
           [ValidationError ''Property name is required'' [] Undefined
              (Some (PLink ''name'' (Some (PLink [] None)))),
            Error ''Unknown property city'', Error ''Unknown property foo'',
            ValidationError ''Invalid string'' [] (JNum 1)
              (Some (PLink ''city'' (Some (PLink ''address'' (Some (PLink [] None)))))),
            ValidationError ''Property address.zip is required'' [] Undefined
              (Some (PLink ''zip'' (Some (PLink ''address'' (Some (PLink [] None))))))]
           Undefined None))"
      by code_simp
    ultimately show ?thesis by (simp add: eval_nat_numeral)
  qed
qed

text \<open>
  Claim C1 as stated fails on two inputs. A nested node that is not required returns
  \<open>undefined\<close> for \<open>undefined\<close> without parsing its child \<open>a\<close>, which would have thrown. And
  with a child named \<open>a.b\<close> the lookup of the child fails outside the error trapper:
  \<open>parse\<close> throws a \<open>TypeError\<close>, neither the aggregated error nor an object.
\<close>

theorem nested_optional_counterexample:
  "\<forall>rx.
     hasChildren optional_nested
     \<and> map_option fst (parse rx 2 (Transformers ex_rt) ex_hooks optional_nested Undefined)
         = Some (Inr Undefined)
     \<and> map_option fst (parse rx 1 (Transformers ex_rt) ex_hooks (hd (children optional_nested)) Undefined)
         = Some (Inl (ValidationError ''Property a is required'' [] Undefined
                        (Some (PLink ''a'' (Some (PLink [] None))))))
     \<and> hasChildren (built dotted)
     \<and> map_option fst (parse rx 2 (Transformers ex_rt) ex_hooks (built dotted) (JObj [(''a.b'', JStr ''x'')]))
         = Some (Inl (TypeError ''Cannot read property name of undefined''))"
  by (rule allI) code_simp

subsection \<open>The assembled object\<close>



lemma kept_names:
  "fst ` set (concat (map (\<lambda>c. kept_by c (pc c (input_of obj c))) cs)) \<subseteq> (\<lambda>c. name (node c)) ` set cs"
  by (induction cs) (auto simp: kept_by_def split: option.splits sum.splits prod.splits if_splits)




subsection \<open>What the errors carry\<close>

text \<open>
  Claim C7 on three inputs. The schema \<^verbatim>\<open>{ name: String }\<close> parsing \<^verbatim>\<open>{}\<close> throws the
  aggregated error with no value and no field, though the input was \<^verbatim>\<open>{}\<close> and the node
  is the root. Parsing \<open>5\<close>, the structural error in its list carries the value and no
  field. The union \<^verbatim>\<open>[String, Number]\<close> parsing \<^verbatim>\<open>{}\<close> throws an error with the field
  and with the value \<open>undefined\<close>, not the input.
\<close>

theorem aggregate_without_field:
  "\<forall>rx.
     thrown_fields (parse rx 2 (Transformers ex_rt) ex_hooks (built (JObj [(''name'', JFn ''String'')])) (JObj []))
       = Some (''Data is not valid'', Undefined, None)
     \<and> map_option fst (parse rx 2 (Transformers ex_rt) ex_hooks (built (JObj [(''name'', JFn ''String'')])) (JNum 5))
       = Some (Inl (ValidationError ''Data is not valid''
           [ValidationError ''Invalid object schema'' [] (JNum 5) None,
            ValidationError ''Property name is required'' [] Undefined
              (Some (PLink ''name'' (Some (PLink [] None))))]
           Undefined None))
     \<and> thrown_fields (parse rx 2 (Transformers ex_rt) ex_hooks string_or_number (JObj []))
       = Some (''Could not resolve given value type'', Undefined, Some (PLink [] None))"
  by (rule allI) code_simp

subsection \<open>Parsing a parsed value\<close>

lemma parseProperty_touch:
  assumes "\<not> isArray ty" and "R (to_str ty) = Some T"
  shows "parseProperty (Suc n) R F (touch R this) ty v = parseProperty (Suc n) R F this ty v"
proof (cases "v = Null \<and> truthy (sget (settings R this) ''allowNull'')")
  case True
  then show ?thesis
    by (simp add: parseProperty.simps(2) parseProperty_body_def settings_touch touch_idem)
next
  case False
  then have "\<not> (v = Null \<and> truthy (sget (settings R (touch R this)) ''allowNull''))"
    by (simp add: settings_touch)
  with False assms show ?thesis by (simp add: parseProperty_single resolve_touch)
qed

lemma run_loaders_none:
  "\<not> truthy (sget (priv_defaultSettings (node this)) ''loaders'') \<Longrightarrow> \<not> truthy (t_loaders T) \<Longrightarrow>
   run_loaders pp T this v = Some (Inr v, this)"
  by (simp add: run_loaders_def)

lemma default_stage_cases:
  "default_stage F this v = Inr r \<Longrightarrow> r = v \<or> (v = Undefined \<and> r \<noteq> Undefined)"
  by (auto simp: default_stage_def Let_def split: if_splits)


lemma run_stages_casts:
  assumes "t_parse T = None"
  shows "run_stages F T this v =
     bind_err (casts F T this v) (\<lambda>w.
     bind_err (runTransformer (t_validate T) (self_of this) w) (\<lambda>_.
     bind_err (runTransformer_settings F (priv_defaultSettings (node this)) ''validate'' (self_of this) w)
       (\<lambda>_. Inr w)))"
  using assms
  by (simp add: run_stages_def casts_def Let_def bind_err_def runTransformer_def
      split: sum.splits)

lemma steady_stages:
  assumes "t_parse T = None" and "idempotent_casts F T this"
    and "run_stages F T this v = Inr r"
  shows "run_stages F T this r = Inr r \<and> (r = Undefined \<longrightarrow> v = Undefined)"
proof -
  let ?check = "\<lambda>w. bind_err (runTransformer (t_validate T) (self_of this) w) (\<lambda>_.
     bind_err (runTransformer_settings F (priv_defaultSettings (node this)) ''validate'' (self_of this) w)
       (\<lambda>_. Inr w))"
  have rs: "run_stages F T this u = bind_err (casts F T this u) ?check" for u
    using assms(1) by (rule run_stages_casts)
  from assms(3) obtain w where c: "casts F T this v = Inr w" and k: "?check w = Inr r"
    unfolding rs by (cases "casts F T this v") (simp_all add: bind_err_def)
  have rw: "r = w"
    using k by (auto simp: bind_err_def split: sum.splits)
  from assms(2) c have "casts F T this w = Inr w" and "w = Undefined \<longrightarrow> v = Undefined"
    by (auto simp: idempotent_casts_def)
  with k rw show ?thesis by (simp add: rs bind_err_def)
qed

lemma steady_resolve:
  assumes nl: "\<not> truthy (sget (settings R this) ''loaders'')" "\<not> truthy (t_loaders T)"
    and np: "t_parse T = None" and ic: "idempotent_casts F T (touch R this)"
    and res: "resolve pp R F T this v = Some (Inr r, this')"
  shows "this' = touch R this \<and> resolve pp R F T this r = Some (Inr r, touch R this)"
proof -
  let ?t = "touch R this"
  have nl': "\<not> truthy (sget (priv_defaultSettings (node ?t)) ''loaders'')" using nl(1) by simp
  have rl: "run_loaders pp T ?t w = Some (Inr w, ?t)" for w
    using nl' nl(2) by (rule run_loaders_none)
  from res obtain v1 where d: "default_stage F ?t v = Inr v1"
    by (cases "default_stage F ?t v") (auto simp: resolve_def Let_def)
  have same: "resolve pp R F T this v1 = resolve pp R F T this v"
    using default_stage_cases [OF d] d by (auto simp: resolve_substitutes)
  have d1: "default_stage F ?t v1 = Inr v1"
    using default_stage_cases [OF d] d by (auto simp: default_stage_defined)
  show ?thesis
  proof (cases "v1 = Undefined \<and> \<not> truthy (sget (settings R this) ''required'')")
    case True
    with res d have "r = v1" "this' = ?t" by (auto simp: resolve_def Let_def)
    with same res show ?thesis by simp
  next
    case False
    with res d have st: "run_stages F T ?t v1 = Inr r" and t: "this' = ?t"
      and rq: "(if v1 = Undefined then required_stage ?t v1 else None) = None"
      by (auto simp: resolve_def Let_def rl touch_idem split: if_splits option.splits)
    from steady_stages [OF np ic st]
    have again: "run_stages F T ?t r = Inr r" and u: "r = Undefined \<longrightarrow> v1 = Undefined"
      by simp_all
    show ?thesis
    proof (cases "r = Undefined")
      case True
      with u have "r = v1" by simp
      with same res t show ?thesis by simp
    next
      case False
      then have "default_stage F ?t r = Inr r" by (rule default_stage_defined)
      with False again have "resolve pp R F T this r = Some (Inr r, ?t)"
        by (simp add: resolve_def Let_def rl touch_idem)
      with t show ?thesis by simp
    qed
  qed
qed

lemma parseProperty_unregistered:
  assumes "\<not> isArray ty" and "R (to_str ty) = None"
    and "\<not> (v = Null \<and> truthy (sget (settings R this) ''allowNull''))"
  shows "\<exists>e s. parseProperty (Suc n) R F this ty v = Some (Inl e, s)"
  using assms
  by (cases ty) (auto simp: parseProperty.simps(2) parseProperty_body_def Let_def)

lemma cast_stable_returns_again:
  assumes "cast_stable R F this"
  shows "returns_again R F this"
  unfolding returns_again_def
proof (intro allI impI)
  fix n v r this'
  let ?ty = "type (node this)" and ?t = "touch R this"
  assume first: "parseProperty n R F this ?ty v = Some (Inr r, this')"
  then obtain m where n: "n = Suc m" by (cases n) auto
  from assms have na: "\<not> isArray ?ty" by (simp add: cast_stable_def)
  have short: "parseProperty (Suc m) R F s ?ty Null = Some (Inr Null, touch R s)"
    if "truthy (sget (settings R s) ''allowNull'')" for s
    using that by (simp add: parseProperty.simps(2) parseProperty_body_def)
  show "\<exists>this''. parseProperty n R F this' ?ty r = Some (Inr r, this'')"
  proof (cases "v = Null \<and> truthy (sget (settings R this) ''allowNull'')")
    case True
    with first n have "r = Null" "this' = ?t"
      by (auto simp: parseProperty.simps(2) parseProperty_body_def)
    with True short [of ?t] n show ?thesis by (simp add: settings_touch)
  next
    case False
    show ?thesis
    proof (cases "R (to_str ?ty)")
      case None
      from parseProperty_unregistered [OF na None False, of m F]
      obtain e s where "parseProperty (Suc m) R F this ?ty v = Some (Inl e, s)" by blast
      with first n show ?thesis by simp
    next
      case (Some T)
      with assms have p: "\<not> truthy (sget (settings R this) ''loaders'')" "\<not> truthy (t_loaders T)"
        "t_parse T = None" "idempotent_casts F T ?t"
        by (simp_all add: cast_stable_def)
      from first n False na Some
      have res: "resolve (parseProperty m R F) R F T this v = Some (Inr r, this')"
        by (simp add: parseProperty_single)
      from steady_resolve [OF p res] have t: "this' = ?t"
        and again: "resolve (parseProperty m R F) R F T this r = Some (Inr r, ?t)" by simp_all
      show ?thesis
      proof (cases "r = Null \<and> truthy (sget (settings R this) ''allowNull'')")
        case True
        with short [of ?t] t n show ?thesis by (simp add: settings_touch)
      next
        case nn: False
        with na Some again have "parseProperty (Suc m) R F this ?ty r = Some (Inr r, ?t)"
          by (simp add: parseProperty_single)
        with na Some t n show ?thesis by (simp add: parseProperty_touch)
      qed
    qed
  qed
qed

lemma steady_leaf_reparse:
  assumes "steady_leaf R F this" and "hook_free this" and "\<not> hasChildren this"
    and "parse rx n R F this v = Some (Inr r, this')"
  shows "\<exists>this''. parse rx n R F this' r = Some (Inr r, this'')"
proof -
  from assms(1) have ra: "returns_again R F this"
    by (auto simp: steady_leaf_def cast_stable_returns_again)
  from assms(4) obtain m where n: "n = Suc m" by (cases n) auto
  have P: "parse rx (Suc m) R F s w = parseProperty (Suc m) R F s (type (node s)) w"
    if "hook_free s" "\<not> hasChildren s" for s w
    using that by (simp add: parse_hook_free)
  have first: "parseProperty n R F this (type (node this)) v = Some (Inr r, this')"
    using assms(2,3,4) n by (simp add: P)
  from parseProperty_static [OF first] have ss: "same_static this this'" .
  then have hf: "hook_free this'" "\<not> hasChildren this'" "type (node this') = type (node this)"
    using assms(2,3) by (simp_all add: same_static_def hook_free_def hasChildren_def)
  from ra first obtain this'' where
    "parseProperty n R F this' (type (node this)) r = Some (Inr r, this'')"
    unfolding returns_again_def by blast
  with hf n show ?thesis by (simp add: P)
qed

lemma parse_names_kept: "names_kept (parse rx n R F)"
  unfolding names_kept_def using parse_node_static by blast

lemma sandbox_nonempty: "sandbox e \<noteq> []"
  by (cases e) auto

lemma runChildren_loop_stops:
  assumes "\<forall>c \<in> set todo. dot_free (name (node c))"
    and "distinct (map (\<lambda>c. name (node c)) todo)"
    and "\<forall>d \<in> set done. \<forall>c \<in> set todo. name (node d) \<noteq> name (node c)"
    and "names_kept pc"
    and "\<exists>c \<in> set todo. pc c (input_of obj c) = None"
  shows "runChildren_loop pc (Schema n (done @ todo)) obj (map (\<lambda>c. name (node c)) todo) res errs = None"
  using assms
proof (induction todo arbitrary: "done" res errs)
  case Nil
  then show ?case by simp
next
  case (Cons c cs)
  have df: "dot_free (name (node c))" using Cons.prems(1) by simp
  have sk: "\<forall>d \<in> set done. name (node d) \<noteq> name (node c)" using Cons.prems(3) by simp
  have at: "schemaAtPath (Schema n (done @ c # cs)) (name (node c)) = Inr (Some c)"
    using df sk by (rule schemaAtPath_child)
  have inp: "(if typeof obj = ''object'' \<and> obj \<noteq> Null then get_prop obj (name (node c)) else Undefined)
      = input_of obj c" by (simp add: input_of_def)
  show ?case
  proof (cases "pc c (input_of obj c)")
    case None
    with at inp show ?thesis by (simp add: replace_dot_tail_dot_free [OF df])
  next
    case (Some a)
    obtain r c' where a: "a = (r, c')" by (cases a)
    from Some a Cons.prems(4) have nm: "name (node c') = name (node c)"
      by (auto simp: names_kept_def)
    have put: "putAtPath (Schema n (done @ c # cs)) (name (node c)) c' = Schema n ((done @ [c']) @ cs)"
      using putAtPath_child [OF df sk, of n cs c'] by simp
    have p1: "\<forall>c \<in> set cs. dot_free (name (node c))" using Cons.prems(1) by simp
    have p2: "distinct (map (\<lambda>c. name (node c)) cs)" using Cons.prems(2) by simp
    have p3: "\<forall>d \<in> set (done @ [c']). \<forall>x \<in> set cs. name (node d) \<noteq> name (node x)"
      using Cons.prems(2,3) nm by auto
    have p5: "\<exists>x \<in> set cs. pc x (input_of obj x) = None"
      using Cons.prems(5) Some by auto
    note ih = Cons.IH [OF p1 p2 p3 Cons.prems(4) p5]
    show ?thesis
      using Some a at put inp ih
      by (cases r) (simp_all add: replace_dot_tail_dot_free [OF df])
  qed
qed

lemma runChildren_returns:
  assumes "well_named this" and "names_kept pc"
    and "runChildren rx pc R this obj = Some (r, this')"
    and "\<not> (\<not> truthy (sget (settings R this) ''required'') \<and> obj = Undefined)"
  shows "\<forall>c \<in> set (children this). pc c (input_of obj c) \<noteq> None"
proof (intro ballI notI)
  fix c0 assume "c0 \<in> set (children this)" and "pc c0 (input_of obj c0) = None"
  then have ex: "\<exists>c \<in> set (children this). pc c (input_of obj c) = None" ..
  have wn: "\<forall>c \<in> set (children this). dot_free (name (node c))"
    "distinct (map (\<lambda>c. name (node c)) (children this))"
    using assms(1) by (simp_all add: well_named_def ownPaths_def)
  have t: "touch R this = Schema (node (touch R this)) ([] @ children this)"
    by (simp add: touch_def)
  have "runChildren_loop pc (touch R this) obj (ownPaths (touch R this)) [] (structural rx this obj) = None"
    apply (subst t)
    apply (simp only: ownPaths_def touch_simps)
    apply (rule runChildren_loop_stops)
    using wn assms(2) ex by simp_all
  with assms(3,4) show False
    by (auto simp: runChildren_def Let_def structural_def)
qed

lemma lookup_assembled:
  assumes "distinct (map (\<lambda>c. name (node c)) cs)" and "c \<in> set cs"
    and "pc c (input_of obj c) = Some (Inr val, c')"
  shows "lookup (concat (map (\<lambda>c. kept_by c (pc c (input_of obj c))) cs)) (name (node c)) = val"
  using assms
proof (induction cs)
  case Nil
  then show ?case by simp
next
  case (Cons h cs)
  let ?rest = "concat (map (\<lambda>c. kept_by c (pc c (input_of obj c))) cs)"
  show ?case
  proof (cases "c = h")
    case True
    have "name (node h) \<notin> fst ` set ?rest"
      using Cons.prems(1) kept_names [of pc obj cs] by auto
    then have "map_of ?rest (name (node h)) = None" by (simp add: map_of_eq_None_iff)
    with True Cons.prems(3) show ?thesis by (simp add: kept_by_def lookup_def map_add_def)
  next
    case False
    with Cons.prems have c: "c \<in> set cs" and ne: "name (node h) \<noteq> name (node c)"
      by (auto simp: image_iff)
    from Cons.IH [OF _ c Cons.prems(3)] Cons.prems(1)
    have ih: "lookup ?rest (name (node c)) = val" by simp
    have "map_of (kept_by h (pc h (input_of obj h))) (name (node c)) = None"
      using ne by (auto simp: kept_by_def split: option.splits sum.splits prod.splits)
    with ih show ?thesis by (simp add: lookup_def map_add_def)
  qed
qed

lemma child_of_dot_free: "dot_free p \<Longrightarrow> child_of k p = None"
proof (rule ccontr)
  assume d: "dot_free p" and "child_of k p \<noteq> None"
  then have "take (length k + 1) p = k @ ''.''"
    by (auto simp: child_of_def Let_def split: if_splits)
  then have "CHR ''.'' \<in> set (take (length k + 1) p)" by simp
  then have "CHR ''.'' \<in> set p" by (rule in_set_takeD)
  with d show False by (simp add: dot_free_def)
qed


lemma childProps_dot_free: "\<forall>p \<in> set names. dot_free p \<Longrightarrow> childProps (child_of k) names = []"
  by (induction names) (simp_all add: childProps_def List.map_filter_simps child_of_dot_free)

lemma restricted_assembled:
  assumes "\<forall>p \<in> set names. dot_free p" and "\<forall>p \<in> set names. regex_free p"
    and "fst ` set ps \<subseteq> set names"
  shows "propertiesRestricted_props rx ps names = Inr True"
  using assms(3)
proof (induction ps)
  case Nil
  show ?case by simp
next
  case (Cons kv ps)
  obtain k v where kv: "kv = (k, v)" by (cases kv)
  from Cons.prems kv have k: "k \<in> set names" and rest: "fst ` set ps \<subseteq> set names" by auto
  from k assms(2) have pm: "propMatch rx k = Inr (child_of k)" by (simp add: propMatch_def)
  from Cons.IH [OF rest] k kv pm childProps_dot_free [OF assms(1), of k]
  show ?case by (cases v) simp_all
qed

lemma structural_assembled:
  assumes "well_named this" and "\<forall>p \<in> set (ownPaths this). regex_free p"
    and "fst ` set res \<subseteq> set (ownPaths this)"
  shows "structural rx this (JObj res) = []"
proof -
  have "propertiesRestricted rx (JObj res) (ownPaths this) = Inr True"
    using assms by (simp add: propertiesRestricted_def restricted_assembled well_named_def)
  then show ?thesis by (simp add: structural_def structureValidation_def)
qed

lemma nested_reparse:
  assumes hf: "hook_free this" and hc: "hasChildren this" and wn: "well_named this"
    and rf: "\<forall>p \<in> set (ownPaths this). regex_free p"
    and ih: "\<And>c v r c'. c \<in> set (children this) \<Longrightarrow> parse rx n R F c v = Some (Inr r, c') \<Longrightarrow>
               \<exists>c''. parse rx n R F c' r = Some (Inr r, c'')"
    and first: "parse rx (Suc n) R F this x = Some (Inr y, this')"
  shows "\<exists>this''. parse rx (Suc n) R F this' y = Some (Inr y, this'')"
proof -
  let ?pc = "parse rx n R F"
  have rc: "runChildren rx ?pc R this x = Some (Inr y, this')"
    using first hf hc by (simp add: parse_hook_free)
  show ?thesis
  proof (cases "\<not> truthy (sget (settings R this) ''required'') \<and> x = Undefined")
    case True
    with rc have y: "y = Undefined" and t: "this' = touch R this"
      by (auto simp: runChildren_def Let_def)
    have "hook_free (touch R this)" "hasChildren (touch R this)"
      using hf hc by (simp_all add: hook_free_def hasChildren_def)
    then have "parse rx (Suc n) R F (touch R this) Undefined
        = runChildren rx ?pc R (touch R this) Undefined"
      by (simp add: parse_hook_free)
    also have "\<dots> = Some (Inr Undefined, touch R (touch R this))"
      using True by (simp add: runChildren_def Let_def settings_touch)
    finally show ?thesis using y t by simp
  next
    case False
    let ?cs = "children this"
    let ?out = "\<lambda>c. ?pc c (input_of x c)"
    let ?res = "concat (map (\<lambda>c. kept_by c (?out c)) ?cs)"
    let ?left = "\<lambda>c. left_by c (?out c)"
    have ret: "\<forall>c \<in> set ?cs. ?out c \<noteq> None"
      using wn parse_names_kept rc False by (rule runChildren_returns)
    have cr: "\<forall>c \<in> set ?cs. \<exists>r c'. ?pc c (input_of x c) = Some (r, c')
        \<and> name (node c') = name (node c)"
      using ret by (rule children_return)
    have col: "collected rx ?pc R this x = Some (Inr y, this')"
      using runChildren_collects [where pc = "?pc" and R = R, OF wn cr] rc by simp
    from col False have noerr: "structural rx this x = []"
      "\<forall>c \<in> set ?cs. thrown_by (?out c) = []"
      and y: "y = JObj ?res"
      and this': "this' = Schema (node (touch R this)) (map ?left ?cs)"
      by (auto simp: collected_def Let_def comp_def split: if_splits)
    have each: "\<exists>val c'. ?out c = Some (Inr val, c') \<and> name (node c') = name (node c)
        \<and> (\<exists>c''. ?pc c' val = Some (Inr val, c''))" if c: "c \<in> set ?cs" for c
    proof -
      from ret c obtain r c' where o: "?out c = Some (r, c')" by fastforce
      from noerr(2) c o obtain val where r: "r = Inr val"
        by (cases r) (auto simp: thrown_by_def sandbox_nonempty)
      from parse_node_static [OF o] have nm: "name (node c') = name (node c)" by simp
      from ih [OF c o [unfolded r]] o r nm show ?thesis by blast
    qed
    have d: "distinct (map (\<lambda>c. name (node c)) ?cs)"
      using wn by (simp add: well_named_def ownPaths_def)
    have left_name: "name (node (?left c)) = name (node c)" if c: "c \<in> set ?cs" for c
      using each [OF c] by (auto simp: left_by_def)
    have names': "map (\<lambda>c. name (node c)) (map ?left ?cs) = map (\<lambda>c. name (node c)) ?cs"
      using left_name by simp
    have op': "ownPaths this' = ownPaths this"
      using names' by (simp add: ownPaths_def this')
    have wn': "well_named this'" using wn op' by (simp add: well_named_def)
    have hf': "hook_free this'" using hf by (simp add: hook_free_def this')
    have hc': "hasChildren this'" using hc by (simp add: hasChildren_def this')
    have inp: "input_of y (?left c) = val"
      if c: "c \<in> set ?cs" and o: "?out c = Some (Inr val, c')" for c val c'
    proof -
      from each [OF c] o have "name (node (?left c)) = name (node c)" by (simp add: left_by_def)
      then show ?thesis
        using lookup_assembled [where pc = "?pc" and obj = x, OF d c o] by (simp add: input_of_def y)
    qed
    have second: "\<exists>c''. ?pc (?left c) (input_of y (?left c)) = Some (Inr val, c'')"
      if c: "c \<in> set ?cs" and o: "?out c = Some (Inr val, c')" for c val c'
    proof -
      from each [OF c] o obtain c'' where "?pc c' val = Some (Inr val, c'')" by auto
      with inp [OF c o] o show ?thesis by (simp add: left_by_def)
    qed
    have ret': "\<forall>c2 \<in> set (children this'). ?pc c2 (input_of y c2) \<noteq> None"
    proof
      fix c2 assume "c2 \<in> set (children this')"
      then obtain c where c: "c \<in> set ?cs" and c2: "c2 = ?left c" by (auto simp: this')
      from each [OF c] obtain val c' where o: "?out c = Some (Inr val, c')" by blast
      from second [OF c o] c2 show "?pc c2 (input_of y c2) \<noteq> None" by auto
    qed
    have cr': "\<forall>c \<in> set (children this'). \<exists>r c'. ?pc c (input_of y c) = Some (r, c')
        \<and> name (node c') = name (node c)"
      using ret' by (rule children_return)
    have rc': "runChildren rx ?pc R this' y = collected rx ?pc R this' y"
      using wn' cr' by (rule runChildren_collects)
    have kept': "concat (map (\<lambda>c2. kept_by c2 (?pc c2 (input_of y c2))) (children this')) = ?res"
    proof -
      have one: "kept_by (?left c) (?pc (?left c) (input_of y (?left c))) = kept_by c (?out c)"
        if c: "c \<in> set ?cs" for c
      proof -
        from each [OF c] obtain val c' where o: "?out c = Some (Inr val, c')" by blast
        from second [OF c o] obtain c'' where
          s: "?pc (?left c) (input_of y (?left c)) = Some (Inr val, c'')" by blast
        from o s left_name [OF c] show ?thesis by (simp add: kept_by_def)
      qed
      have m: "map (\<lambda>c2. kept_by c2 (?pc c2 (input_of y c2))) (map ?left ?cs)
          = map (\<lambda>c. kept_by c (?out c)) ?cs"
        using one by simp
      show ?thesis by (simp only: this' schema.sel m)
    qed
    have thrown': "concat (map (\<lambda>c2. thrown_by (?pc c2 (input_of y c2))) (children this')) = []"
    proof -
      have "\<forall>c2 \<in> set (children this'). thrown_by (?pc c2 (input_of y c2)) = []"
      proof
        fix c2 assume "c2 \<in> set (children this')"
        then obtain c where c: "c \<in> set ?cs" and c2: "c2 = ?left c" by (auto simp: this')
        from each [OF c] obtain val c' where o: "?out c = Some (Inr val, c')" by blast
        from second [OF c o] c2 show "thrown_by (?pc c2 (input_of y c2)) = []"
          by (auto simp: thrown_by_def)
      qed
      then show ?thesis by simp
    qed
    have sp: "set (ownPaths this') = (\<lambda>c. name (node c)) ` set ?cs"
      unfolding op' by (simp add: ownPaths_def)
    have keys: "fst ` set ?res \<subseteq> set (ownPaths this')"
      unfolding sp by (rule kept_names)
    have rf': "\<forall>p \<in> set (ownPaths this'). regex_free p" using rf by (simp only: op')
    have str': "structural rx this' y = []"
      unfolding y using wn' rf' keys by (rule structural_assembled)
    have "collected rx ?pc R this' y =
        Some (Inr y, Schema (node (touch R this'))
                (map (\<lambda>c2. left_by c2 (?pc c2 (input_of y c2))) (children this')))"
      using str' thrown' kept'
      by (simp add: collected_def Let_def comp_def y)
    with rc' hf' hc' show ?thesis by (simp add: parse_hook_free)
  qed
qed


lemma steady_tree_reparse:
  "steady_tree R F this \<Longrightarrow> parse rx n R F this x = Some (Inr y, this') \<Longrightarrow>
   \<exists>this''. parse rx n R F this' y = Some (Inr y, this'')"
proof (induction n arbitrary: this x y this')
  case 0
  then show ?case by simp
next
  case (Suc n)
  obtain nd cs where sc: "this = Schema nd cs" by (cases this)
  show ?case
  proof (cases "cs = []")
    case True
    with Suc.prems sc have "steady_leaf R F this" "hook_free this" "\<not> hasChildren this"
      by (simp_all add: hasChildren_def)
    then show ?thesis using Suc.prems(2) by (rule steady_leaf_reparse)
  next
    case False
    with Suc.prems sc have hf: "hook_free this" and hc: "hasChildren this"
      and wn: "well_named this" and rf: "\<forall>p \<in> set (ownPaths this). regex_free p"
      and ch: "\<forall>c \<in> set (children this). steady_tree R F c"
      by (simp_all add: hasChildren_def list_all_iff safe_name_def)
    show ?thesis
      using hf hc wn rf _ Suc.prems(2)
    proof (rule nested_reparse)
      fix c v r c'
      assume "c \<in> set (children this)" and "parse rx n R F c v = Some (Inr r, c')"
      with ch Suc.IH show "\<exists>c''. parse rx n R F c' r = Some (Inr r, c'')" by blast
    qed
  qed
qed

lemma plain_casts: 
  assumes "\<not> truthy (sget (priv_defaultSettings (node this)) ''cast'')"
    and "t_cast T = None \<or> \<not> truthy (sget (priv_defaultSettings (node this)) ''autoCast'')"
  shows "idempotent_casts F T this"
  using assms
  by (auto simp: idempotent_casts_def casts_def Let_def bind_err_def runTransformer_def
      runTransformer_settings_def)

lemma plain_leaf_steady: "plain_leaf R this \<Longrightarrow> steady_leaf R F this"
proof -
  assume p: "plain_leaf R this"
  have "cast_stable R F this"
  proof (cases "R (to_str (type (node this)))")
    case None
    with p show ?thesis by (simp add: plain_leaf_def)
  next
    case (Some T)
    with p have q: "\<not> isArray (type (node this))" "\<not> truthy (sget (settings R this) ''loaders'')"
      "\<not> truthy (sget (settings R this) ''cast'')" "\<not> truthy (t_loaders T)" "t_parse T = None"
      "t_cast T = None \<or> \<not> truthy (sget (settings R this) ''autoCast'')"
      by (auto simp: plain_leaf_def split: option.splits)
    from q(3,6) have "idempotent_casts F T (touch R this)"
      by (intro plain_casts) simp_all
    with q Some show ?thesis by (simp add: cast_stable_def)
  qed
  then show ?thesis by (simp add: steady_leaf_def)
qed

lemma plain_tree_steady: "plain_tree R this \<Longrightarrow> steady_tree R F this"
proof (induction R this rule: plain_tree.induct)
  case (1 R nd cs)
  show ?case
  proof (cases "cs = []")
    case True
    with 1 show ?thesis by (simp add: plain_leaf_steady)
  next
    case False
    with 1 show ?thesis by (auto simp: list_all_iff)
  qed
qed

text \<open>
  Claim C6, as amended. Take a steady tree: no schema-level hook runs on it, the children of
  each nested node have distinct names that hold no dot and no other metacharacter of a
  regular expression and are not names of members inherited from \<open>Object.prototype\<close>, and
  every leaf returns again what it returned; a leaf does so when it has one type, no loaders,
  no transformer-level \<open>parse\<close>, and casts that are idempotent and return \<open>undefined\<close> for
  \<open>undefined\<close> only. Whenever \<open>parse\<close> returns a value for such a tree, parsing that value
  again with the same schema object returns the same value. The witness is the round trip
  of the \<open>person\<close> example, for every meaning of the regular expressions.
\<close>

theorem sanitized_is_stable:
  assumes "steady_tree R F this" and "parse rx n R F this x = Some (Inr y, this')"
  shows "reparse rx n R F this x = Some (Inr y)"
proof -
  from steady_tree_reparse [OF assms] obtain this'' where
    "parse rx n R F this' y = Some (Inr y, this'')" ..
  with assms(2) show ?thesis by (simp add: reparse_def)
qed

theorem sanitized_is_stable_witness:
  "\<forall>rx.
     steady_tree (Transformers ex_rt) ex_hooks (built person)
     \<and> map_option fst (parse rx 3 (Transformers ex_rt) ex_hooks (built person) ann) = Some (Inr ann)
     \<and> reparse rx 3 (Transformers ex_rt) ex_hooks (built person) ann = Some (Inr ann)"
proof (rule allI)
  fix rx
  let ?R = "Transformers ex_rt"
  have "plain_tree ?R (built person)" by code_simp
  then have p: "steady_tree ?R ex_hooks (built person)" by (rule plain_tree_steady)
  have e: "map_option fst (parse rx 3 ?R ex_hooks (built person) ann) = Some (Inr ann)"
    by code_simp
  then obtain st where "parse rx 3 ?R ex_hooks (built person) ann = Some (Inr ann, st)"
    by (cases "parse rx 3 ?R ex_hooks (built person) ann") auto
  from sanitized_is_stable [OF p this] p e
  show "steady_tree ?R ex_hooks (built person)
     \<and> map_option fst (parse rx 3 ?R ex_hooks (built person) ann) = Some (Inr ann)
     \<and> reparse rx 3 ?R ex_hooks (built person) ann = Some (Inr ann)" by simp
qed

text \<open>
  Claim C6 as stated fails on leaves that do not return again what they returned. With
  \<open>cast: v => v + 1\<close> on a \<open>Number\<close>, \<open>parse(1)\<close> returns \<open>2\<close> and \<open>parse(parse(1))\<close> returns
  \<open>3\<close>. With the union \<open>[Number, Boolean]\<close> and \<open>autoCast\<close>, where only the casts of the
  built-in transformers run, \<open>parse('abc')\<close> returns \<open>true\<close> by the second candidate, and
  \<open>parse(true)\<close> returns \<open>1\<close> by the first.
\<close>

theorem unstable_leaves_counterexample:
  "\<forall>rx.
     map_option fst (parse rx 2 (Transformers ex_rt) ex_hooks (built increment) (JNum 1))
       = Some (Inr (JNum 2))
     \<and> reparse rx 2 (Transformers ex_rt) ex_hooks (built increment) (JNum 1) = Some (Inr (JNum 3))
     \<and> map_option fst (parse rx 2 (Transformers ex_rt) ex_hooks (built number_or_boolean) (JStr ''abc''))
       = Some (Inr (JBool True))
     \<and> reparse rx 2 (Transformers ex_rt) ex_hooks (built number_or_boolean) (JStr ''abc'')
       = Some (Inr (JNum 1))"
  by (rule allI) code_simp

end
